theory Spec2Isabelle
  imports Complex_Main "HOL-Library.Word"
begin

section \<open>Values of the runtime\<close>

text \<open>
  A JavaScript string is a sequence of 16-bit code units; a \<open>Uint8Array\<close> or
  \<open>ArrayBuffer\<close> is a sequence of bytes. Node identifiers, user identifiers and
  ports are JavaScript numbers; the model covers the integers (of magnitude below
  \<open>10 ^ 21\<close>, where a template literal prints plain decimal digits).
\<close>

type_synonym byte = "8 word"
type_synonym bytes = "byte list"
type_synonym jsstring = "16 word list"

definition ascii :: "string \<Rightarrow> jsstring" where
  "ascii s = map (\<lambda>c. of_nat (of_char c)) s"

text \<open>
  A rejected promise or a thrown exception: \<open>TypeError\<close> for a property read on
  \<open>null\<close> or \<open>undefined\<close> and for a \<open>fetch\<close> that fails, \<open>DataError\<close> for a
  key that \<open>importKey\<close> refuses, \<open>OperationError\<close> for a failed \<open>encrypt\<close> or
  \<open>decrypt\<close>.
\<close>

datatype js_error = TypeError | DataError | OperationError

text \<open>The value of \<open>parseInt\<close>: an integer or \<open>NaN\<close>.\<close>

datatype jsnumber = Num int | NaN

section \<open>Base64 (src/crypto.ts, lines 3 to 12)\<close>

text \<open>
  \<open>Buffer.from(buffer).toString("base64")\<close>: the alphabet of RFC 4648, three bytes to
  four characters, padded with \<open>=\<close> (code unit 61).
\<close>

definition b64char :: "nat \<Rightarrow> 16 word" where
  "b64char i = of_nat (if i < 26 then 65 + i
                       else if i < 52 then 97 + (i - 26)
                       else if i < 62 then 48 + (i - 52)
                       else if i = 62 then 43 else 47)"

fun arrayBufferToBase64 :: "bytes \<Rightarrow> jsstring" where
  "arrayBufferToBase64 (a # b # c # rest) =
     [b64char (unat a div 4), b64char (unat a mod 4 * 16 + unat b div 16),
      b64char (unat b mod 16 * 4 + unat c div 64), b64char (unat c mod 64)]
     @ arrayBufferToBase64 rest"
| "arrayBufferToBase64 [a, b] =
     [b64char (unat a div 4), b64char (unat a mod 4 * 16 + unat b div 16),
      b64char (unat b mod 16 * 4), 61]"
| "arrayBufferToBase64 [a] =
     [b64char (unat a div 4), b64char (unat a mod 4 * 16), 61, 61]"
| "arrayBufferToBase64 [] = []"

text \<open>
  \<open>Buffer.from(base64, "base64")\<close> never throws. The decoder works on 8-bit
  characters: of each code unit it looks at the low byte only. It reads the
  characters of both the standard and the URL-safe alphabet, skips every other
  character, and stops at the first \<open>=\<close>. Sextets are regrouped into bytes; a
  trailing group of two or three sextets gives one or two bytes, a single trailing
  sextet gives none.
\<close>

definition unbase64 :: "16 word \<Rightarrow> nat option" where
  "unbase64 c = (let u = unat c mod 256 in
     if 65 \<le> u \<and> u \<le> 90 then Some (u - 65)
     else if 97 \<le> u \<and> u \<le> 122 then Some (u - 97 + 26)
     else if 48 \<le> u \<and> u \<le> 57 then Some (u - 48 + 52)
     else if u = 43 \<or> u = 45 then Some 62
     else if u = 47 \<or> u = 95 then Some 63
     else None)"

fun b64_sextets :: "jsstring \<Rightarrow> nat list" where
  "b64_sextets [] = []"
| "b64_sextets (c # cs) =
     (if unat c mod 256 = 61 then []
      else case unbase64 c of Some v \<Rightarrow> v # b64_sextets cs | None \<Rightarrow> b64_sextets cs)"

fun b64_bytes :: "nat list \<Rightarrow> bytes" where
  "b64_bytes (s0 # s1 # s2 # s3 # rest) =
     [of_nat (s0 * 4 + s1 div 16), of_nat (s1 mod 16 * 16 + s2 div 4), of_nat (s2 mod 4 * 64 + s3)]
     @ b64_bytes rest"
| "b64_bytes [s0, s1, s2] = [of_nat (s0 * 4 + s1 div 16), of_nat (s1 mod 16 * 16 + s2 div 4)]"
| "b64_bytes [s0, s1] = [of_nat (s0 * 4 + s1 div 16)]"
| "b64_bytes _ = []"

definition base64ToArrayBuffer :: "jsstring \<Rightarrow> bytes" where
  "base64ToArrayBuffer base64 = b64_bytes (b64_sextets base64)"

section \<open>Text encoding (TextEncoder and TextDecoder, used by symEncrypt and symDecrypt)\<close>

text \<open>
  \<open>new TextEncoder().encode(data)\<close> first reads the string as a sequence of Unicode
  scalar values: a high surrogate followed by a low surrogate is one supplementary
  code point, any other surrogate is replaced by U+FFFD. Each scalar value then
  becomes one to four bytes of UTF-8.
\<close>

definition is_high_surrogate :: "16 word \<Rightarrow> bool" where
  "is_high_surrogate c = (0xD800 \<le> unat c \<and> unat c \<le> 0xDBFF)"

definition is_low_surrogate :: "16 word \<Rightarrow> bool" where
  "is_low_surrogate c = (0xDC00 \<le> unat c \<and> unat c \<le> 0xDFFF)"

fun usv_scalars :: "jsstring \<Rightarrow> nat list" where
  "usv_scalars (c # d # cs) =
     (if is_high_surrogate c \<and> is_low_surrogate d
      then (0x10000 + (unat c - 0xD800) * 0x400 + (unat d - 0xDC00)) # usv_scalars cs
      else (if is_high_surrogate c \<or> is_low_surrogate c then 0xFFFD else unat c)
           # usv_scalars (d # cs))"
| "usv_scalars [c] = [if is_high_surrogate c \<or> is_low_surrogate c then 0xFFFD else unat c]"
| "usv_scalars [] = []"

text \<open>A Unicode scalar value: a code point that is no surrogate.\<close>

definition scalar_value :: "nat \<Rightarrow> bool" where
  "scalar_value cp = (cp < 0x110000 \<and> (cp < 0xD800 \<or> 0xDFFF < cp))"

definition utf8_encode_scalar :: "nat \<Rightarrow> nat list" where
  "utf8_encode_scalar cp =
     (if cp < 0x80 then [cp]
      else if cp < 0x800 then [0xC0 + cp div 0x40, 0x80 + cp mod 0x40]
      else if cp < 0x10000 then
        [0xE0 + cp div 0x1000, 0x80 + cp div 0x40 mod 0x40, 0x80 + cp mod 0x40]
      else [0xF0 + cp div 0x40000, 0x80 + cp div 0x1000 mod 0x40,
            0x80 + cp div 0x40 mod 0x40, 0x80 + cp mod 0x40])"

definition TextEncoder_encode :: "jsstring \<Rightarrow> bytes" where
  "TextEncoder_encode s = map of_nat (concat (map utf8_encode_scalar (usv_scalars s)))"

text \<open>
  \<open>new TextDecoder().decode(bytes)\<close>: the UTF-8 decoder of the Encoding Standard in
  replacement mode. Its state is the code point being assembled, the bytes seen and
  needed, and the bounds of the next continuation byte; a byte that cannot continue
  a sequence yields U+FFFD and is read again as the start of the next one, and input
  that ends inside a sequence yields U+FFFD. The decoder drops one leading U+FEFF
  (\<open>ignoreBOM\<close> is off by default), and the code points are written as UTF-16.
\<close>

function utf8_decoder :: "nat \<Rightarrow> nat \<Rightarrow> nat \<Rightarrow> nat \<Rightarrow> nat \<Rightarrow> nat list \<Rightarrow> nat list" where
  "utf8_decoder cp seen needed lower upper [] = (if needed \<noteq> 0 then [0xFFFD] else [])"
| "utf8_decoder cp seen needed lower upper (b # bs) =
     (if needed = 0 then
        (if b \<le> 0x7F then b # utf8_decoder cp seen needed lower upper bs
         else if 0xC2 \<le> b \<and> b \<le> 0xDF then utf8_decoder (b mod 0x20) seen 1 lower upper bs
         else if 0xE0 \<le> b \<and> b \<le> 0xEF then
           utf8_decoder (b mod 0x10) seen 2
             (if b = 0xE0 then 0xA0 else lower) (if b = 0xED then 0x9F else upper) bs
         else if 0xF0 \<le> b \<and> b \<le> 0xF4 then
           utf8_decoder (b mod 8) seen 3
             (if b = 0xF0 then 0x90 else lower) (if b = 0xF4 then 0x8F else upper) bs
         else 0xFFFD # utf8_decoder cp seen needed lower upper bs)
      else if b < lower \<or> upper < b then 0xFFFD # utf8_decoder 0 0 0 0x80 0xBF (b # bs)
      else if seen + 1 \<noteq> needed then
        utf8_decoder (cp * 0x40 + b mod 0x40) (seen + 1) needed 0x80 0xBF bs
      else (cp * 0x40 + b mod 0x40) # utf8_decoder 0 0 0 0x80 0xBF bs)"
  by pat_completeness auto
termination
  by (relation "measure (\<lambda>(cp, seen, needed, lower, upper, bs).
        2 * length bs + (if needed = 0 then 0 else 1))") auto

definition strip_bom :: "nat list \<Rightarrow> nat list" where
  "strip_bom cps = (case cps of [] \<Rightarrow> [] | c # rest \<Rightarrow> if c = 0xFEFF then rest else cps)"

definition utf16_units :: "nat \<Rightarrow> jsstring" where
  "utf16_units cp =
     (if cp < 0x10000 then [of_nat cp]
      else [of_nat (0xD800 + (cp - 0x10000) div 0x400), of_nat (0xDC00 + (cp - 0x10000) mod 0x400)])"

definition TextDecoder_decode :: "bytes \<Rightarrow> jsstring" where
  "TextDecoder_decode bs =
     concat (map utf16_units (strip_bom (utf8_decoder 0 0 0 0x80 0xBF (map unat bs))))"

text \<open>
  \<open>String.prototype.isWellFormed\<close> and \<open>toWellFormed\<close>: a string is well formed
  when it has no unpaired surrogate; \<open>toWellFormed\<close> replaces each unpaired surrogate by
  U+FFFD.
\<close>

fun isWellFormed :: "jsstring \<Rightarrow> bool" where
  "isWellFormed (c # d # cs) =
     (if is_high_surrogate c then is_low_surrogate d \<and> isWellFormed cs
      else \<not> is_low_surrogate c \<and> isWellFormed (d # cs))"
| "isWellFormed [c] = (\<not> is_high_surrogate c \<and> \<not> is_low_surrogate c)"
| "isWellFormed [] = True"

definition toWellFormed :: "jsstring \<Rightarrow> jsstring" where
  "toWellFormed s = concat (map utf16_units (usv_scalars s))"

section \<open>Numbers and strings\<close>

text \<open>A template literal \<open>`${n}`\<close> of an integer: its decimal digits, with a minus sign.\<close>

fun decimal :: "nat \<Rightarrow> jsstring" where
  "decimal n = (if n < 10 then [of_nat (48 + n)] else decimal (n div 10) @ [of_nat (48 + n mod 10)])"

declare decimal.simps [simp del]

definition number_toString :: "int \<Rightarrow> jsstring" where
  "number_toString i = (if i < 0 then 45 # decimal (nat (- i)) else decimal (nat i))"

text \<open>\<open>s.padStart(n, c)\<close> for a one-character filler \<open>c\<close>.\<close>

definition padStart :: "jsstring \<Rightarrow> nat \<Rightarrow> 16 word \<Rightarrow> jsstring" where
  "padStart s n c = replicate (n - length s) c @ s"

text \<open>
  \<open>parseInt(string, 10)\<close>: leading white space is skipped, one sign is read, then the
  longest run of decimal digits; no digit gives \<open>NaN\<close>.
\<close>

definition isStrWhiteSpaceChar :: "16 word \<Rightarrow> bool" where
  "isStrWhiteSpaceChar c =
     (c \<in> {0x9, 0xA, 0xB, 0xC, 0xD, 0x20, 0xA0, 0x1680, 0x2028, 0x2029, 0x202F, 0x205F,
            0x3000, 0xFEFF}
      \<or> (0x2000 \<le> unat c \<and> unat c \<le> 0x200A))"

definition isDigit :: "16 word \<Rightarrow> bool" where
  "isDigit c = (48 \<le> unat c \<and> unat c \<le> 57)"

definition digits_value :: "jsstring \<Rightarrow> nat" where
  "digits_value ds = foldl (\<lambda>acc d. 10 * acc + (unat d - 48)) 0 ds"

definition parseInt :: "jsstring \<Rightarrow> jsnumber" where
  "parseInt string =
     (let s = dropWhile isStrWhiteSpaceChar string;
          negative = (case s of [] \<Rightarrow> False | c # _ \<Rightarrow> c = 0x2D);
          s' = (case s of [] \<Rightarrow> [] | c # r \<Rightarrow> if c = 0x2B \<or> c = 0x2D then r else s);
          z = takeWhile isDigit s'
      in if z = [] then NaN
         else Num ((if negative then - 1 else 1) * int (digits_value z)))"

section \<open>The Web Crypto primitives\<close>

text \<open>
  \<open>webcrypto.subtle\<close> is not code of the repository; its operations are parameters of
  the model. A key is held by its exported bytes: the SPKI bytes of an RSA public key,
  the PKCS#8 bytes of an RSA private key, the raw bytes of an AES key.
  \<^item> \<open>importKey_spki\<close>, \<open>importKey_pkcs8\<close>: whether \<open>importKey\<close> accepts the bytes as
    an RSA-OAEP key with SHA-256;
  \<^item> \<open>rsa_oaep_encrypt spki seed data\<close>: RSA-OAEP encryption, \<open>seed\<close> being the random
    bytes the padding draws; \<open>None\<close> when the operation fails;
  \<^item> \<open>rsa_oaep_decrypt pkcs8 data\<close>: RSA-OAEP decryption, \<open>None\<close> on failure;
  \<^item> \<open>aes_cbc_encrypt key iv data\<close> and \<open>aes_cbc_decrypt key iv data\<close>: AES-CBC with
    PKCS#7 padding; decryption gives \<open>None\<close> on failure.
\<close>

record crypto =
  importKey_spki :: "bytes \<Rightarrow> bool"
  importKey_pkcs8 :: "bytes \<Rightarrow> bool"
  rsa_oaep_encrypt :: "bytes \<Rightarrow> bytes \<Rightarrow> bytes \<Rightarrow> bytes option"
  rsa_oaep_decrypt :: "bytes \<Rightarrow> bytes \<Rightarrow> bytes option"
  aes_cbc_encrypt :: "bytes \<Rightarrow> bytes \<Rightarrow> bytes \<Rightarrow> bytes"
  aes_cbc_decrypt :: "bytes \<Rightarrow> bytes \<Rightarrow> bytes \<Rightarrow> bytes option"

section \<open>Keys and encryption (src/crypto.ts)\<close>

text \<open>\<open>exportPubKey\<close>: the SPKI bytes in base64.\<close>

definition exportPubKey :: "bytes \<Rightarrow> jsstring" where
  "exportPubKey key = arrayBufferToBase64 key"

text \<open>\<open>exportPrvKey\<close>: \<open>null\<close> for no key, else the PKCS#8 bytes in base64.\<close>

fun exportPrvKey :: "bytes option \<Rightarrow> jsstring option" where
  "exportPrvKey None = None"
| "exportPrvKey (Some key) = Some (arrayBufferToBase64 key)"

definition importPubKey :: "crypto \<Rightarrow> jsstring \<Rightarrow> js_error + bytes" where
  "importPubKey cr strKey =
     (let keyBuffer = base64ToArrayBuffer strKey
      in if importKey_spki cr keyBuffer then Inr keyBuffer else Inl DataError)"

definition importPrvKey :: "crypto \<Rightarrow> jsstring \<Rightarrow> js_error + bytes" where
  "importPrvKey cr strKey =
     (let keyBuffer = base64ToArrayBuffer strKey
      in if importKey_pkcs8 cr keyBuffer then Inr keyBuffer else Inl DataError)"

text \<open>\<open>rsaEncrypt(b64Data, strPublicKey)\<close>; \<open>seed\<close> is the randomness of the padding.\<close>

definition rsaEncrypt :: "crypto \<Rightarrow> bytes \<Rightarrow> jsstring \<Rightarrow> jsstring \<Rightarrow> js_error + jsstring" where
  "rsaEncrypt cr seed b64Data strPublicKey =
     (case importPubKey cr strPublicKey of
        Inl e \<Rightarrow> Inl e
      | Inr publicKey \<Rightarrow>
          (case rsa_oaep_encrypt cr publicKey seed (base64ToArrayBuffer b64Data) of
             None \<Rightarrow> Inl OperationError
           | Some encryptedData \<Rightarrow> Inr (arrayBufferToBase64 encryptedData)))"

text \<open>\<open>rsaDecrypt(data, privateKey)\<close>, the key already imported.\<close>

definition rsaDecrypt :: "crypto \<Rightarrow> jsstring \<Rightarrow> bytes \<Rightarrow> js_error + jsstring" where
  "rsaDecrypt cr data privateKey =
     (case rsa_oaep_decrypt cr privateKey (base64ToArrayBuffer data) of
        None \<Rightarrow> Inl OperationError
      | Some decryptedData \<Rightarrow> Inr (arrayBufferToBase64 decryptedData))"

definition exportSymKey :: "bytes \<Rightarrow> jsstring" where
  "exportSymKey key = arrayBufferToBase64 key"

text \<open>\<open>importSymKey\<close>: a raw AES key has 128, 192 or 256 bits, else \<open>importKey\<close> rejects.\<close>

definition importSymKey :: "jsstring \<Rightarrow> js_error + bytes" where
  "importSymKey strKey =
     (let keyBuffer = base64ToArrayBuffer strKey
      in if length keyBuffer = 16 \<or> length keyBuffer = 24 \<or> length keyBuffer = 32
         then Inr keyBuffer else Inl DataError)"

text \<open>
  \<open>symEncrypt(key, data)\<close>; \<open>iv\<close> is what \<open>crypto.getRandomValues(new Uint8Array(16))\<close>
  returned.
\<close>

definition symEncrypt :: "crypto \<Rightarrow> bytes \<Rightarrow> bytes \<Rightarrow> jsstring \<Rightarrow> jsstring" where
  "symEncrypt cr iv key data =
     (let dataBuffer = TextEncoder_encode data;
          encryptedData = aes_cbc_encrypt cr key iv dataBuffer;
          encryptedDataB64 = arrayBufferToBase64 encryptedData
      in arrayBufferToBase64 iv @ encryptedDataB64)"

definition symDecrypt :: "crypto \<Rightarrow> jsstring \<Rightarrow> jsstring \<Rightarrow> js_error + jsstring" where
  "symDecrypt cr strKey encryptedData =
     (case importSymKey strKey of
        Inl e \<Rightarrow> Inl e
      | Inr key \<Rightarrow>
          (let iv = base64ToArrayBuffer (take 24 encryptedData);
               encryptedDataBuffer = base64ToArrayBuffer (drop 24 encryptedData)
           in case aes_cbc_decrypt cr key iv encryptedDataBuffer of
                None \<Rightarrow> Inl OperationError
              | Some decryptedData \<Rightarrow> Inr (TextDecoder_decode decryptedData)))"

section \<open>The registry (src/registry/registry.ts)\<close>

record Node =
  nodeId :: int
  pubKey :: jsstring

record GetNodeRegistryBody =
  nodes :: "Node list"

text \<open>\<open>let getNodeRegistryBody = { nodes: [] }\<close>\<close>

definition registry_init :: GetNodeRegistryBody where
  "registry_init = \<lparr>nodes = []\<rparr>"

text \<open>
  \<open>POST /registerNode\<close>: pushes \<open>{ nodeId, pubKey }\<close> onto the list and answers
  \<open>{ result: "success" }\<close>. There is no check of any kind before the push.
\<close>

definition registerNode :: "GetNodeRegistryBody \<Rightarrow> int \<Rightarrow> jsstring \<Rightarrow> GetNodeRegistryBody \<times> jsstring" where
  "registerNode body nid pk =
     (body\<lparr>nodes := nodes body @ [\<lparr>nodeId = nid, pubKey = pk\<rparr>]\<rparr>, ascii ''success'')"

text \<open>\<open>GET /getNodeRegistry\<close>: answers the body, whose \<open>nodes\<close> field is the list.\<close>

definition getNodeRegistry :: "GetNodeRegistryBody \<Rightarrow> GetNodeRegistryBody" where
  "getNodeRegistry body = body"

text \<open>A run of registration requests, handled one after the other.\<close>

fun registerAll :: "GetNodeRegistryBody \<Rightarrow> (int \<times> jsstring) list \<Rightarrow> GetNodeRegistryBody" where
  "registerAll body [] = body"
| "registerAll body ((nid, pk) # reqs) = registerAll (fst (registerNode body nid pk)) reqs"

section \<open>Requests and responses\<close>

text \<open>
  What a handler does to the outside, in order: a \<open>fetch\<close> to a port of localhost
  with the \<open>message\<close> field of its JSON body, the settling of that \<open>fetch\<close> (which is
  where \<open>await\<close> resumes or throws), and the response sent to the caller. Whether a
  \<open>fetch\<close> resolves or rejects is decided by the network and is an input of the model;
  a \<open>fetch\<close> that resolves does so whatever the status of the downstream response.
\<close>

datatype fetch_result = Resolved | Rejected

datatype event =
    FetchIssued int "jsstring option"
  | FetchSettled fetch_result
  | ResSend jsstring

text \<open>
  \<open>fetch(`http://localhost:${port}/message`)\<close>: the URL parses only when the text
  after the colon is a decimal port up to 65535; \<open>null\<close>, \<open>NaN\<close> and a negative number
  print as text that is no port, and \<open>fetch\<close> rejects with a \<open>TypeError\<close>.
\<close>

fun url_port :: "jsnumber option \<Rightarrow> int option" where
  "url_port None = None"
| "url_port (Some NaN) = None"
| "url_port (Some (Num p)) = (if 0 \<le> p \<and> p \<le> 65535 then Some p else None)"

text \<open>
  The POST of a message to a port and what follows it in both handlers:
  \<open>await fetch(...); res.send("success")\<close>.
\<close>

definition post_then_respond :: "jsnumber option \<Rightarrow> jsstring option \<Rightarrow> fetch_result \<Rightarrow> event list \<times> js_error option" where
  "post_then_respond destination payload downstream =
     (case url_port destination of
        None \<Rightarrow> ([], Some TypeError)
      | Some port \<Rightarrow>
          (case downstream of
             Rejected \<Rightarrow> ([FetchIssued port payload, FetchSettled Rejected], Some TypeError)
           | Resolved \<Rightarrow>
               ([FetchIssued port payload, FetchSettled Resolved, ResSend (ascii ''success'')],
                None)))"

section \<open>The onion router (simpleOnionRouter, POST /message)\<close>

record router_state =
  lastReceivedEncryptedMessage :: "jsstring option"
  lastReceivedDecryptedMessage :: "jsstring option"
  lastMessageSource :: "int option"
  lastMessageDestination :: "jsnumber option"

definition router_init :: router_state where
  "router_init = \<lparr>lastReceivedEncryptedMessage = None, lastReceivedDecryptedMessage = None,
                   lastMessageSource = None, lastMessageDestination = None\<rparr>"

text \<open>
  \<open>privateKey ? await rsaDecrypt(encryptedSymKey, await importPrvKey(privateKey)) : null\<close>,
  the value of \<open>symKey\<close>. Both \<open>null\<close> and the empty string are falsy.
\<close>

fun decrypt_symKey :: "crypto \<Rightarrow> jsstring option \<Rightarrow> jsstring \<Rightarrow> js_error + jsstring option" where
  "decrypt_symKey cr None encryptedSymKey = Inr None"
| "decrypt_symKey cr (Some privateKey) encryptedSymKey =
     (if privateKey = [] then Inr None
      else case importPrvKey cr privateKey of
             Inl e \<Rightarrow> Inl e
           | Inr key \<Rightarrow>
               (case rsaDecrypt cr encryptedSymKey key of
                  Inl e \<Rightarrow> Inl e
                | Inr symKey \<Rightarrow> Inr (Some symKey)))"

text \<open>
  \<open>symKey ? await symDecrypt(symKey, encryptedMessage) : null\<close>, the value of
  \<open>message\<close>.
\<close>

fun decrypt_message :: "crypto \<Rightarrow> jsstring option \<Rightarrow> jsstring \<Rightarrow> js_error + jsstring option" where
  "decrypt_message cr None encryptedMessage = Inr None"
| "decrypt_message cr (Some symKey) encryptedMessage =
     (if symKey = [] then Inr None
      else case symDecrypt cr symKey encryptedMessage of
             Inl e \<Rightarrow> Inl e
           | Inr message \<Rightarrow> Inr (Some message))"

text \<open>
  The four assignments after the decryptions: \<open>message ? message.slice(10) : null\<close> and
  \<open>message ? parseInt(message.slice(0, 10), 10) : null\<close>.
\<close>

definition record_message :: "int \<Rightarrow> jsstring \<Rightarrow> jsstring option \<Rightarrow> router_state" where
  "record_message routerId layer message =
     \<lparr>lastReceivedEncryptedMessage = Some layer,
      lastReceivedDecryptedMessage =
        (case message of None \<Rightarrow> None
         | Some m \<Rightarrow> if m = [] then None else Some (drop 10 m)),
      lastMessageSource = Some routerId,
      lastMessageDestination =
        (case message of None \<Rightarrow> None
         | Some m \<Rightarrow> if m = [] then None else Some (parseInt (take 10 m)))\<rparr>"

text \<open>
  The handler, for the router whose \<open>nodeId\<close> is \<open>routerId\<close> and whose exported
  private key is \<open>privateKey\<close> (a \<open>string | null\<close>). \<open>body_message\<close> is
  \<open>req.body.message\<close>, a string or \<open>null\<close> (\<open>null.slice\<close> throws). The two slices,
  the two decryptions, the four assignments, the forward and the response follow in
  the order of the source. The result is the new state, what the handler did to the
  outside, and the exception that ended it, if one did.
\<close>

definition router_message ::
  "crypto \<Rightarrow> int \<Rightarrow> jsstring option \<Rightarrow> fetch_result \<Rightarrow> router_state \<Rightarrow> jsstring option
   \<Rightarrow> router_state \<times> event list \<times> js_error option" where
  "router_message cr routerId privateKey downstream st body_message =
     (case body_message of
        None \<Rightarrow> (st, [], Some TypeError)
      | Some layer \<Rightarrow>
          (let encryptedSymKey = take 344 layer in
           case decrypt_symKey cr privateKey encryptedSymKey of
             Inl e \<Rightarrow> (st, [], Some e)
           | Inr symKey \<Rightarrow>
               (let encryptedMessage = drop 344 layer in
                case decrypt_message cr symKey encryptedMessage of
                  Inl e \<Rightarrow> (st, [], Some e)
                | Inr message \<Rightarrow>
                    (let st' = record_message routerId layer message;
                         (evs, err) = post_then_respond (lastMessageDestination st')
                                        (lastReceivedDecryptedMessage st') downstream
                     in (st', evs, err)))))"

section \<open>The user (user, POST /message and POST /sendMessage)\<close>

record user_state =
  lastReceivedMessages :: "int \<Rightarrow> jsstring option"
  lastSentMessage :: "jsstring option"
  lastCircuit :: "Node list"

definition user_init :: user_state where
  "user_init = \<lparr>lastReceivedMessages = (\<lambda>_. None), lastSentMessage = None, lastCircuit = []\<rparr>"

text \<open>\<open>POST /message\<close>: \<open>lastReceivedMessages[userId] = message\<close>, then \<open>"success"\<close>.\<close>

definition user_message :: "int \<Rightarrow> user_state \<Rightarrow> jsstring option \<Rightarrow> user_state \<times> event list" where
  "user_message userId st message =
     (st\<lparr>lastReceivedMessages := (lastReceivedMessages st)(userId := message)\<rparr>,
      [ResSend (ascii ''success'')])"

text \<open>\<open>GET /getLastReceivedMessage\<close>: the stored message, \<open>null\<close> when there is none.\<close>

definition getLastReceivedMessage :: "int \<Rightarrow> user_state \<Rightarrow> jsstring option" where
  "getLastReceivedMessage userId st = lastReceivedMessages st userId"

subsection \<open>Choosing the circuit\<close>

text \<open>
  \<open>nodes\<close> is the array parsed from the registry's answer: each element is an object
  of its own, so an element is identified by its index. \<open>nodes[i]\<close> past the end is
  \<open>undefined\<close>. \<open>random k\<close> is the value of the \<open>k\<close>-th call of \<open>Math.random()\<close>;
  the product and the floor are taken exactly. The code floors the product rounded
  to a double, which for some values is the next index (\<open>0.6666666666666666 * 3\<close> is
  rounded to 2); the rounded product of a double below 1 and a length stays below the
  length as well. The properties of the loop are shown for every \<open>random\<close>, and every
  run of indices below the length is the one some \<open>random\<close> draws
  (\<open>every_index_run_drawn\<close>).
\<close>

datatype node_ref = Ref nat | Undefined

definition nodes_at :: "Node list \<Rightarrow> nat \<Rightarrow> node_ref" where
  "nodes_at ns i = (if i < length ns then Ref i else Undefined)"

definition randomIndex :: "Node list \<Rightarrow> (nat \<Rightarrow> real) \<Rightarrow> nat \<Rightarrow> nat" where
  "randomIndex ns random k = nat \<lfloor>random k * real (length ns)\<rfloor>"

text \<open>
  The \<open>while (circuit.length < 3)\<close> loop; \<open>k\<close> counts the calls of \<open>Math.random()\<close> so
  far. A run that never leaves the loop has the value \<open>None\<close>.
\<close>

partial_function (option) circuit_loop ::
  "Node list \<Rightarrow> (nat \<Rightarrow> real) \<Rightarrow> nat \<Rightarrow> node_ref list \<Rightarrow> (node_ref list \<times> nat) option" where
  "circuit_loop ns random k circuit =
     (if length circuit < 3
      then (if nodes_at ns (randomIndex ns random k) \<in> set circuit
            then circuit_loop ns random (k + 1) circuit
            else circuit_loop ns random (k + 1) (circuit @ [nodes_at ns (randomIndex ns random k)]))
      else Some (circuit, k))"

text \<open>Reading an element of the circuit: the object, or \<open>undefined\<close>.\<close>

fun deref :: "Node list \<Rightarrow> node_ref \<Rightarrow> Node option" where
  "deref ns Undefined = None"
| "deref ns (Ref i) = (if i < length ns then Some (ns ! i) else None)"

subsection \<open>Building the onion\<close>

text \<open>
  The randomness one iteration of the \<open>for\<close> loop draws: the fresh AES key of
  \<open>createRandomSymmetricKey\<close>, the IV of \<open>symEncrypt\<close> and the padding seed of
  \<open>rsaEncrypt\<close>.
\<close>

record layer_random =
  fresh_symKey :: bytes
  fresh_iv :: bytes
  fresh_seed :: bytes

text \<open>The 10-character address \<open>`${port}`.padStart(10, "0")\<close>.\<close>

definition address :: "int \<Rightarrow> jsstring" where
  "address port = padStart (number_toString port) 10 48"

text \<open>
  One iteration of the loop body: from the current \<open>destination\<close> and
  \<open>messageToSend\<close> to the next ones. Reading \<open>node.nodeId\<close> of \<open>undefined\<close> throws.
\<close>

fun wrap_layer ::
  "crypto \<Rightarrow> int \<Rightarrow> layer_random \<Rightarrow> Node option \<Rightarrow> jsstring \<Rightarrow> jsstring
   \<Rightarrow> js_error + jsstring \<times> jsstring" where
  "wrap_layer cr BASE_ONION_ROUTER_PORT r None destination messageToSend = Inl TypeError"
| "wrap_layer cr BASE_ONION_ROUTER_PORT r (Some node) destination messageToSend =
     (let symKey = fresh_symKey r;
          messageToEncrypt = destination @ messageToSend;
          destination' = address (BASE_ONION_ROUTER_PORT + nodeId node);
          encryptedMessage = symEncrypt cr (fresh_iv r) symKey messageToEncrypt
      in case rsaEncrypt cr (fresh_seed r) (exportSymKey symKey) (pubKey node) of
           Inl e \<Rightarrow> Inl e
         | Inr encryptedSymKey \<Rightarrow> Inr (destination', encryptedSymKey @ encryptedMessage))"

text \<open>\<open>for (let i = 0; i < circuit.length; i++)\<close>, from index \<open>i\<close> on.\<close>

fun onion_loop ::
  "crypto \<Rightarrow> int \<Rightarrow> (nat \<Rightarrow> layer_random) \<Rightarrow> nat \<Rightarrow> Node option list \<Rightarrow> jsstring \<Rightarrow> jsstring
   \<Rightarrow> js_error + jsstring" where
  "onion_loop cr BASE_ONION_ROUTER_PORT rnd i [] destination messageToSend = Inr messageToSend"
| "onion_loop cr BASE_ONION_ROUTER_PORT rnd i (node # circuit) destination messageToSend =
     (case wrap_layer cr BASE_ONION_ROUTER_PORT (rnd i) node destination messageToSend of
        Inl e \<Rightarrow> Inl e
      | Inr (destination', messageToSend') \<Rightarrow>
          onion_loop cr BASE_ONION_ROUTER_PORT rnd (i + 1) circuit destination' messageToSend')"

subsection \<open>POST /sendMessage\<close>

text \<open>
  \<open>ns\<close> is the list the registry answered with. The result is \<open>None\<close> when the handler
  never returns; else the new state, what the handler did to the outside and the
  exception that ended it, if one did. After the loop the circuit is reversed in
  place, its first element is the entry node, and the reversed circuit is stored.
\<close>

definition send_onion ::
  "int \<Rightarrow> fetch_result \<Rightarrow> user_state \<Rightarrow> Node option list \<Rightarrow> jsstring
   \<Rightarrow> user_state \<times> event list \<times> js_error option" where
  "send_onion BASE_ONION_ROUTER_PORT downstream st circuit messageToSend =
     (let reversed = rev circuit;
          st' = st\<lparr>lastCircuit := concat (map (\<lambda>n. case n of None \<Rightarrow> [] | Some x \<Rightarrow> [x]) reversed)\<rparr>
      in case reversed of
           Some entryNode # _ \<Rightarrow>
             (let (evs, err) = post_then_respond
                    (Some (Num (BASE_ONION_ROUTER_PORT + nodeId entryNode)))
                    (Some messageToSend) downstream
              in (st', evs, err))
         | _ \<Rightarrow> (st', [], Some TypeError))"

definition user_sendMessage ::
  "crypto \<Rightarrow> int \<Rightarrow> int \<Rightarrow> (nat \<Rightarrow> real) \<Rightarrow> (nat \<Rightarrow> layer_random) \<Rightarrow> fetch_result \<Rightarrow> Node list
   \<Rightarrow> user_state \<Rightarrow> jsstring \<Rightarrow> int \<Rightarrow> (user_state \<times> event list \<times> js_error option) option" where
  "user_sendMessage cr BASE_USER_PORT BASE_ONION_ROUTER_PORT random rnd downstream ns st
     message destinationUserId =
     (case circuit_loop ns random 0 [] of
        None \<Rightarrow> None
      | Some (circuit, _) \<Rightarrow>
          Some (let st1 = st\<lparr>lastSentMessage := Some message\<rparr>;
                    destination = address (BASE_USER_PORT + destinationUserId)
                in case onion_loop cr BASE_ONION_ROUTER_PORT rnd 0 (map (deref ns) circuit)
                          destination message of
                     Inl e \<Rightarrow> (st1, [], Some e)
                   | Inr messageToSend \<Rightarrow>
                       send_onion BASE_ONION_ROUTER_PORT downstream st1 (map (deref ns) circuit)
                         messageToSend))"

section \<open>A message on its way through the routers\<close>

text \<open>
  A router forwards to the next hop the \<open>message\<close> field it has just recorded as
  \<open>lastReceivedDecryptedMessage\<close>. \<open>relay\<close> follows a payload through a row of
  routers in the order they are listed, each handling what the one before it
  forwarded, and returns the state each ends in. A router is given by its
  \<open>nodeId\<close>, its exported private key, the outcome of its own \<open>fetch\<close> and its state
  before the request.
\<close>

fun relay ::
  "crypto \<Rightarrow> (int \<times> jsstring option \<times> fetch_result \<times> router_state) list \<Rightarrow> jsstring option
   \<Rightarrow> router_state list" where
  "relay cr [] payload = []"
| "relay cr ((routerId, privateKey, downstream, st) # hops) payload =
     (let st' = fst (router_message cr routerId privateKey downstream st payload)
      in st' # relay cr hops (lastReceivedDecryptedMessage st'))"

text \<open>
  The onion that \<open>/sendMessage\<close> builds for a circuit (in the order the nodes were
  chosen) and its way through the routers of those nodes, entered at the last chosen
  node since the circuit is reversed before the entry node is read. Each node comes
  with the private key, \<open>fetch\<close> outcome and state of the router that registered it.
\<close>

definition onion_route ::
  "crypto \<Rightarrow> int \<Rightarrow> int \<Rightarrow> (nat \<Rightarrow> layer_random)
   \<Rightarrow> (Node \<times> jsstring option \<times> fetch_result \<times> router_state) list \<Rightarrow> jsstring \<Rightarrow> int
   \<Rightarrow> js_error + router_state list" where
  "onion_route cr BASE_USER_PORT BASE_ONION_ROUTER_PORT rnd circuit message destinationUserId =
     (case onion_loop cr BASE_ONION_ROUTER_PORT rnd 0 (map (\<lambda>(node, _). Some node) circuit)
             (address (BASE_USER_PORT + destinationUserId)) message of
        Inl e \<Rightarrow> Inl e
      | Inr messageToSend \<Rightarrow>
          Inr (relay cr
                 (map (\<lambda>(node, privateKey, downstream, st).
                         (nodeId node, privateKey, downstream, st)) (rev circuit))
                 (Some messageToSend)))"

section \<open>What the claims assume of the primitives\<close>

text \<open>
  AES-CBC decrypts what it encrypted, under a key of 128, 192 or 256 bits and a
  16-byte IV.
\<close>

definition aes_cbc_correct :: "crypto \<Rightarrow> bool" where
  "aes_cbc_correct cr =
     (\<forall>key iv data.
        (length key = 16 \<or> length key = 24 \<or> length key = 32) \<and> length iv = 16 \<longrightarrow>
        aes_cbc_decrypt cr key iv (aes_cbc_encrypt cr key iv data) = Some data)"

text \<open>
  A key pair as \<open>generateRsaKeyPair\<close> makes it (RSA-OAEP, 2048-bit modulus, SHA-256):
  both halves import, and every plaintext of at most 190 bytes encrypts under the
  public half to 256 bytes that the private half decrypts to the plaintext.
\<close>

definition rsa_key_pair :: "crypto \<Rightarrow> bytes \<Rightarrow> bytes \<Rightarrow> bool" where
  "rsa_key_pair cr spki pkcs8 =
     (pkcs8 \<noteq> [] \<and> importKey_spki cr spki \<and> importKey_pkcs8 cr pkcs8 \<and>
      (\<forall>seed data. length data \<le> 190 \<longrightarrow>
         (\<exists>c. rsa_oaep_encrypt cr spki seed data = Some c \<and> length c = 256 \<and>
              rsa_oaep_decrypt cr pkcs8 c = Some data)))"


text \<open>
  A stand-in for the primitives, with the same shapes (an RSA ciphertext of 256
  bytes, keys that import when they are not empty), on which the assumptions above can
  be seen to hold. It is no cipher.
\<close>

definition toy_crypto :: crypto where
  "toy_crypto =
     \<lparr>importKey_spki = (\<lambda>key. key \<noteq> []),
      importKey_pkcs8 = (\<lambda>key. key \<noteq> []),
      rsa_oaep_encrypt = (\<lambda>spki seed data.
        if length data \<le> 190
        then Some (of_nat (length data) # map (\<lambda>b. b + sum_list spki) data
                   @ replicate (255 - length data) 0)
        else None),
      rsa_oaep_decrypt = (\<lambda>pkcs8 c.
        case c of
          [] \<Rightarrow> None
        | n # rest \<Rightarrow>
            if length c = 256 \<and> unat n \<le> 190
            then Some (map (\<lambda>b. b - sum_list pkcs8) (take (unat n) rest))
            else None),
      aes_cbc_encrypt = (\<lambda>key iv data. map (\<lambda>b. b + sum_list key + sum_list iv) data @ [1]),
      aes_cbc_decrypt = (\<lambda>key iv c.
        if c = [] then None
        else Some (map (\<lambda>b. b - sum_list key - sum_list iv) (butlast c)))\<rparr>"


section \<open>A worked example\<close>

text \<open>
  Routers and randomness for the stand-in primitives: router \<open>i\<close> holds the one-byte
  key \<open>i + 1\<close> as both halves of its pair, and the \<open>i\<close>-th layer draws a 32-byte key
  and a 16-byte IV.
\<close>

definition example_rnd :: "nat \<Rightarrow> layer_random" where
  "example_rnd i =
     \<lparr>fresh_symKey = replicate 32 (of_nat i), fresh_iv = replicate 16 (of_nat i + 1),
      fresh_seed = []\<rparr>"

definition example_node :: "int \<Rightarrow> Node" where
  "example_node i = \<lparr>nodeId = i, pubKey = exportPubKey [of_int i + 1]\<rparr>"

definition example_key :: "int \<Rightarrow> jsstring option" where
  "example_key i = exportPrvKey (Some [of_int i + 1])"

text \<open>
  The circuit of nodes 0, 1, 2 (chosen in this order), with idle routers whose own
  forwards succeed.
\<close>

definition example_circuit :: "(Node \<times> jsstring option \<times> fetch_result \<times> router_state) list" where
  "example_circuit =
     [(example_node 0, example_key 0, Resolved, router_init),
      (example_node 1, example_key 1, Resolved, router_init),
      (example_node 2, example_key 2, Resolved, router_init)]"



text \<open>
  A directory of three nodes and a run of \<open>Math.random()\<close> whose draws select the
  indices 0, 0, 1, 2, 2, \<dots>
\<close>

definition example_nodes :: "Node list" where
  "example_nodes = [example_node 0, example_node 1, example_node 2]"

definition example_random :: "nat \<Rightarrow> real" where
  "example_random k = (if k < 2 then 1 / 10 else if k = 2 then 4 / 10 else 9 / 10)"

section \<open>Base64: the decoder inverts the encoder\<close>

lemma unat_of_nat_byte: "x < 256 \<Longrightarrow> unat (of_nat x :: byte) = x"
  by (simp add: unsigned_of_nat take_bit_nat_eq_self)

lemma unat_of_nat_unit: "x < 65536 \<Longrightarrow> unat (of_nat x :: 16 word) = x"
  by (simp add: unsigned_of_nat take_bit_nat_eq_self)

lemma unat_byte_less: "unat (a :: byte) < 256"
  using unsigned_less [of a] by simp

lemma b64char_ascii: "i < 64 \<Longrightarrow> unat (b64char i) < 128"
  unfolding b64char_def by (subst unat_of_nat_unit) auto

lemma b64char_legal:
  "i < 64 \<Longrightarrow> unbase64 (b64char i) = Some i \<and> unat (b64char i) mod 256 \<noteq> 61"
proof -
  assume i: "i < 64"
  have u: "unat (b64char i) = (if i < 26 then 65 + i
                       else if i < 52 then 97 + (i - 26)
                       else if i < 62 then 48 + (i - 52)
                       else if i = 62 then 43 else 47)"
    unfolding b64char_def using i by (subst unat_of_nat_unit) auto
  have l: "unat (b64char i) < 128" using i by (rule b64char_ascii)
  have "unat (b64char i) \<noteq> 61" using i unfolding u by (simp split: if_splits) arith
  then have "unat (b64char i) mod 256 \<noteq> 61" using l by simp
  moreover have "unat (b64char i) mod 256 = unat (b64char i)" using l by simp
  then have "unbase64 (b64char i) = Some i"
    unfolding unbase64_def Let_def by (simp only: u) (use i in \<open>simp split: if_splits\<close>, arith)
  ultimately show ?thesis by simp
qed

lemma sextets_step: "i < 64 \<Longrightarrow> b64_sextets (b64char i # cs) = i # b64_sextets cs"
  using b64char_legal [of i] by simp

lemma sext_bounds:
  "unat (a::byte) div 4 < 64" "unat (a::byte) mod 4 * 16 + unat (b::byte) div 16 < 64"
  "unat (b::byte) mod 16 * 4 + unat (c::byte) div 64 < 64" "unat (c::byte) mod 64 < 64"
  "unat (a::byte) mod 4 * 16 < 64" "unat (b::byte) mod 16 * 4 < 64"
  using unat_byte_less [of a] unat_byte_less [of b] unat_byte_less [of c] by auto

lemma recombine:
  "of_nat (unat (a::byte) div 4 * 4 + (unat a mod 4 * 16 + unat (b::byte) div 16) div 16) = a"
  "of_nat ((unat a mod 4 * 16 + unat (b::byte) div 16) mod 16 * 16 + (unat b mod 16 * 4 + unat (c::byte) div 64) div 4) = b"
  "of_nat ((unat b mod 16 * 4 + unat (c::byte) div 64) mod 4 * 64 + unat c mod 64) = c"
  "of_nat (unat (a::byte) div 4 * 4 + (unat a mod 4 * 16) div 16) = a"
  "of_nat ((unat a mod 4 * 16 + unat (b::byte) div 16) mod 16 * 16 + (unat b mod 16 * 4) div 4) = b"
proof -
  have b: "unat b < 256" and c: "unat c < 256" by (rule unat_byte_less)+
  have "unat a div 4 * 4 + (unat a mod 4 * 16 + unat b div 16) div 16 = unat a"
    using b by simp
  then show "of_nat (unat a div 4 * 4 + (unat a mod 4 * 16 + unat b div 16) div 16) = a" by simp
  have "(unat a mod 4 * 16 + unat b div 16) mod 16 * 16 + (unat b mod 16 * 4 + unat c div 64) div 4 = unat b"
    using b c by simp
  then show "of_nat ((unat a mod 4 * 16 + unat b div 16) mod 16 * 16 + (unat b mod 16 * 4 + unat c div 64) div 4) = b" by simp
  have "(unat b mod 16 * 4 + unat c div 64) mod 4 * 64 + unat c mod 64 = unat c"
    using c by simp
  then show "of_nat ((unat b mod 16 * 4 + unat c div 64) mod 4 * 64 + unat c mod 64) = c" by simp
  have "unat a div 4 * 4 + (unat a mod 4 * 16) div 16 = unat a" by simp
  then show "of_nat (unat a div 4 * 4 + (unat a mod 4 * 16) div 16) = a" by simp
  have "(unat a mod 4 * 16 + unat b div 16) mod 16 * 16 + (unat b mod 16 * 4) div 4 = unat b"
    using b by simp
  then show "of_nat ((unat a mod 4 * 16 + unat b div 16) mod 16 * 16 + (unat b mod 16 * 4) div 4) = b" by simp
qed

lemma b64_sextets_quad:
  "b64_sextets (arrayBufferToBase64 (a # b # c # rest)) =
      unat a div 4 # (unat a mod 4 * 16 + unat b div 16) # (unat b mod 16 * 4 + unat c div 64)
      # unat c mod 64 # b64_sextets (arrayBufferToBase64 rest)"
  by (simp only: arrayBufferToBase64.simps append_Cons append_Nil sextets_step sext_bounds)

lemma b64_sextets_pair:
  "b64_sextets (arrayBufferToBase64 [a, b]) =
      [unat a div 4, unat a mod 4 * 16 + unat b div 16, unat b mod 16 * 4]"
  by (simp only: arrayBufferToBase64.simps sextets_step sext_bounds) simp

lemma b64_sextets_single:
  "b64_sextets (arrayBufferToBase64 [a]) = [unat a div 4, unat a mod 4 * 16]"
  by (simp only: arrayBufferToBase64.simps sextets_step sext_bounds) simp

lemma base64_round_trip: "base64ToArrayBuffer (arrayBufferToBase64 bs) = bs"
  unfolding base64ToArrayBuffer_def
proof (induction bs rule: arrayBufferToBase64.induct)
  case (1 a b c rest)
  show ?case
    by (simp only: b64_sextets_quad b64_bytes.simps recombine 1 append_Cons append_Nil)
next
  case (2 a b)
  show ?case by (simp only: b64_sextets_pair b64_bytes.simps recombine)
next
  case (3 a)
  show ?case by (simp only: b64_sextets_single b64_bytes.simps recombine)
next
  case 4
  show ?case by simp
qed

lemma length_arrayBufferToBase64: "length (arrayBufferToBase64 bs) = 4 * ((length bs + 2) div 3)"
proof (induction bs rule: arrayBufferToBase64.induct)
  case (1 a b c rest)
  have "(length (a # b # c # rest) + 2) div 3 = Suc ((length rest + 2) div 3)" by simp
  then show ?case using 1 by simp
qed simp_all




lemma arrayBufferToBase64_ascii: "c \<in> set (arrayBufferToBase64 bs) \<Longrightarrow> unat c < 128"
proof (induction bs rule: arrayBufferToBase64.induct)
  case (1 a b c' rest)
  then show ?case using b64char_ascii sext_bounds by auto
next
  case (2 a b)
  then show ?case using b64char_ascii sext_bounds by auto
next
  case (3 a)
  then show ?case using b64char_ascii sext_bounds by auto
qed simp

section \<open>Text encoding: what decoding an encoded string gives\<close>

lemma mod_offset: "h < m \<Longrightarrow> (k * m + h) mod m = (h::nat)"
  by simp

lemma mod_lead2: "h < 32 \<Longrightarrow> (192 + h) mod 32 = (h::nat)"
  using mod_offset [of h 32 6] by simp

lemma mod_lead3: "h < 16 \<Longrightarrow> (224 + h) mod 16 = (h::nat)"
  using mod_offset [of h 16 14] by simp

lemma mod_lead4: "h < 8 \<Longrightarrow> (240 + h) mod 8 = (h::nat)"
  using mod_offset [of h 8 30] by simp

lemma mod_cont: "l < 64 \<Longrightarrow> (128 + l) mod 64 = (l::nat)"
  using mod_offset [of l 64 2] by simp

lemma reassemble3:
  "(cp div 0x1000 * 0x40 + cp div 0x40 mod 0x40) * 0x40 + cp mod 0x40 = (cp::nat)"
proof -
  have "cp div 0x1000 = cp div 0x40 div 0x40" by (simp add: div_mult2_eq [symmetric])
  then show ?thesis by simp
qed
lemma reassemble4:
  "((cp div 0x40000 * 0x40 + cp div 0x1000 mod 0x40) * 0x40 + cp div 0x40 mod 0x40) * 0x40
     + cp mod 0x40 = (cp::nat)"
proof -
  have "cp div 0x1000 = cp div 0x40 div 0x40" by (simp add: div_mult2_eq [symmetric])
  moreover have "cp div 0x40000 = cp div 0x40 div 0x40 div 0x40" by (simp add: div_mult2_eq [symmetric])
  ultimately show ?thesis by simp
qed

lemma dec_lead2:
  "2 \<le> h \<Longrightarrow> h < 32 \<Longrightarrow>
   utf8_decoder 0 0 0 0x80 0xBF ((0xC0 + h) # bs) = utf8_decoder h 0 1 0x80 0xBF bs"
  by (simp add: mod_lead2)

lemma dec_lead3:
  "h < 16 \<Longrightarrow>
   utf8_decoder 0 0 0 0x80 0xBF ((0xE0 + h) # bs) =
   utf8_decoder h 0 2 (if h = 0 then 0xA0 else 0x80) (if h = 13 then 0x9F else 0xBF) bs"
  by (simp add: mod_lead3)

lemma dec_lead4:
  "h < 5 \<Longrightarrow>
   utf8_decoder 0 0 0 0x80 0xBF ((0xF0 + h) # bs) =
   utf8_decoder h 0 3 (if h = 0 then 0x90 else 0x80) (if h = 4 then 0x8F else 0xBF) bs"
  by (simp add: mod_lead4)

lemma dec_cont:
  "needed \<noteq> 0 \<Longrightarrow> l < 64 \<Longrightarrow> lower \<le> 0x80 + l \<Longrightarrow> 0x80 + l \<le> upper \<Longrightarrow>
   utf8_decoder cp seen needed lower upper ((0x80 + l) # bs) =
   (if seen + 1 \<noteq> needed then utf8_decoder (cp * 0x40 + l) (seen + 1) needed 0x80 0xBF bs
    else (cp * 0x40 + l) # utf8_decoder 0 0 0 0x80 0xBF bs)"
  by (simp add: mod_cont)

lemma utf8_decoder_scalar:
  assumes "scalar_value cp"
  shows "utf8_decoder 0 0 0 0x80 0xBF (utf8_encode_scalar cp @ rest) = cp # utf8_decoder 0 0 0 0x80 0xBF rest"
proof -
  consider "cp < 0x80" | "0x80 \<le> cp" "cp < 0x800" | "0x800 \<le> cp" "cp < 0x10000" | "0x10000 \<le> cp"
    by linarith
  then show ?thesis
  proof cases
    case 1
    then show ?thesis by (simp add: utf8_encode_scalar_def)
  next
    case 2
    define h where "h = cp div 0x40"
    define l where "l = cp mod 0x40"
    have hl: "2 \<le> h" "h < 32" "l < 64" "h * 0x40 + l = cp"
      using 2 by (simp_all add: h_def l_def)
    have "utf8_encode_scalar cp = [0xC0 + h, 0x80 + l]"
      using 2 by (simp add: utf8_encode_scalar_def h_def l_def)
    then show ?thesis using hl by (simp only: append_Cons append_Nil dec_lead2 dec_cont) simp
  next
    case 3
    define a where "a = cp div 0x1000"
    define b where "b = cp div 0x40 mod 0x40"
    define c where "c = cp mod 0x40"
    have abc: "a < 16" "b < 64" "c < 64" "(a * 0x40 + b) * 0x40 + c = cp"
      using 3 reassemble3 [of cp] by (simp_all add: a_def b_def c_def)
    have lo: "a = 0 \<Longrightarrow> 32 \<le> b" using 3 by (simp add: a_def b_def)
    have up: "b < 32" if "a = 13"
    proof -
      have "53248 \<le> cp" using div_times_less_eq_dividend [of cp 4096] that by (simp add: a_def)
      moreover have "cp < 57344" using dividend_less_div_times [of 4096 cp] that by (simp add: a_def)
      ultimately have "832 \<le> cp div 64" "cp div 64 < 864"
        using assms by (simp_all add: scalar_value_def less_mult_imp_div_less)
      then show ?thesis
        using mod_offset [of "cp div 64 - 832" 64 13] by (simp add: b_def)
    qed
    have enc: "utf8_encode_scalar cp = [0xE0 + a, 0x80 + b, 0x80 + c]"
      using 3 by (simp add: utf8_encode_scalar_def a_def b_def c_def)
    have s1: "utf8_decoder 0 0 0 0x80 0xBF ((0xE0 + a) # (0x80 + b) # (0x80 + c) # rest) =
          utf8_decoder a 0 2 (if a = 0 then 0xA0 else 0x80) (if a = 13 then 0x9F else 0xBF)
            ((0x80 + b) # (0x80 + c) # rest)"
      using abc by (simp only: dec_lead3)
    have s2: "\<dots> = utf8_decoder (a * 0x40 + b) 1 2 0x80 0xBF ((0x80 + c) # rest)"
      using abc lo up by (subst dec_cont) auto
    have s3: "\<dots> = ((a * 0x40 + b) * 0x40 + c) # utf8_decoder 0 0 0 0x80 0xBF rest"
      using abc by (subst dec_cont) auto
    show ?thesis unfolding enc using s1 s2 s3 abc by simp
  next
    case 4
    define a where "a = cp div 0x40000"
    define b where "b = cp div 0x1000 mod 0x40"
    define c where "c = cp div 0x40 mod 0x40"
    define d where "d = cp mod 0x40"
    have lt: "cp < 0x110000" using assms by (simp add: scalar_value_def)
    have abc: "a < 5" "b < 64" "c < 64" "d < 64" "((a * 0x40 + b) * 0x40 + c) * 0x40 + d = cp"
      using 4 lt reassemble4 [of cp] by (simp_all add: a_def b_def c_def d_def)
    have lo: "a = 0 \<Longrightarrow> 16 \<le> b" using 4 by (simp add: a_def b_def)
    have up: "b < 16" if "a = 4"
    proof -
      have "1048576 \<le> cp" using div_times_less_eq_dividend [of cp 262144] that by (simp add: a_def)
      then have "256 \<le> cp div 4096" "cp div 4096 < 272"
        using lt by (simp_all add: less_mult_imp_div_less)
      then show ?thesis
        using mod_offset [of "cp div 4096 - 256" 64 4] by (simp add: b_def)
    qed
    have enc: "utf8_encode_scalar cp = [0xF0 + a, 0x80 + b, 0x80 + c, 0x80 + d]"
      using 4 by (simp add: utf8_encode_scalar_def a_def b_def c_def d_def)
    have s1: "utf8_decoder 0 0 0 0x80 0xBF ((0xF0 + a) # (0x80 + b) # (0x80 + c) # (0x80 + d) # rest) =
          utf8_decoder a 0 3 (if a = 0 then 0x90 else 0x80) (if a = 4 then 0x8F else 0xBF)
            ((0x80 + b) # (0x80 + c) # (0x80 + d) # rest)"
      using abc by (simp only: dec_lead4)
    have s2: "\<dots> = utf8_decoder (a * 0x40 + b) 1 3 0x80 0xBF ((0x80 + c) # (0x80 + d) # rest)"
      using abc lo up by (subst dec_cont) auto
    have s3: "\<dots> = utf8_decoder ((a * 0x40 + b) * 0x40 + c) 2 3 0x80 0xBF ((0x80 + d) # rest)"
      using abc by (subst dec_cont) auto
    have s4: "\<dots> = (((a * 0x40 + b) * 0x40 + c) * 0x40 + d) # utf8_decoder 0 0 0 0x80 0xBF rest"
      using abc by (subst dec_cont) auto
    show ?thesis unfolding enc using s1 s2 s3 s4 abc by simp
  qed
qed

lemma utf8_decoder_scalars:
  "\<forall>cp \<in> set cps. scalar_value cp \<Longrightarrow>
   utf8_decoder 0 0 0 0x80 0xBF (concat (map utf8_encode_scalar cps)) = cps"
  by (induction cps) (simp_all add: utf8_decoder_scalar)

lemma utf8_encode_scalar_bytes:
  "scalar_value cp \<Longrightarrow> b \<in> set (utf8_encode_scalar cp) \<Longrightarrow> b < 256"
  by (auto simp: utf8_encode_scalar_def scalar_value_def split: if_splits)

lemma unat_unit_less: "unat (c :: 16 word) < 65536"
  using unsigned_less [of c] by simp

lemma usv_scalars_scalar: "cp \<in> set (usv_scalars s) \<Longrightarrow> scalar_value cp"
proof (induction s arbitrary: cp rule: usv_scalars.induct)
  case (1 c d cs)
  then show ?case
    using unat_unit_less [of c] unat_unit_less [of d]
    by (auto simp: scalar_value_def is_high_surrogate_def is_low_surrogate_def split: if_splits)
next
  case (2 c)
  then show ?case
    using unat_unit_less [of c]
    by (auto simp: scalar_value_def is_high_surrogate_def is_low_surrogate_def split: if_splits)
qed simp

lemma decode_encode_scalars:
  "utf8_decoder 0 0 0 0x80 0xBF (map unat (TextEncoder_encode s)) = usv_scalars s"
proof -
  have "map unat (TextEncoder_encode s) = concat (map utf8_encode_scalar (usv_scalars s))"
    unfolding TextEncoder_encode_def map_map
  proof (rule map_idI)
    fix b assume "b \<in> set (concat (map utf8_encode_scalar (usv_scalars s)))"
    then have "b < 256" by (auto dest: utf8_encode_scalar_bytes usv_scalars_scalar)
    then show "(unat \<circ> (of_nat :: nat \<Rightarrow> byte)) b = b" by (simp add: unat_of_nat_byte)
  qed
  then show ?thesis by (simp add: utf8_decoder_scalars usv_scalars_scalar)
qed

lemma TextDecoder_TextEncoder:
  "TextDecoder_decode (TextEncoder_encode s) = concat (map utf16_units (strip_bom (usv_scalars s)))"
  by (simp add: TextDecoder_decode_def decode_encode_scalars)

lemma utf16_units_pair:
  assumes "is_high_surrogate c" "is_low_surrogate d"
  shows "utf16_units (0x10000 + (unat c - 0xD800) * 0x400 + (unat d - 0xDC00)) = [c, d]"
proof -
  define x where "x = unat c - 0xD800"
  define y where "y = unat d - 0xDC00"
  have xy: "y < 0x400" "0xD800 + x = unat c" "0xDC00 + y = unat d"
    using assms by (auto simp: x_def y_def is_high_surrogate_def is_low_surrogate_def)
  have "utf16_units (0x10000 + x * 0x400 + y) = [of_nat (0xD800 + x), of_nat (0xDC00 + y)]"
    using xy(1) by (simp add: utf16_units_def)
  moreover have "(of_nat (0xD800 + x) :: 16 word) = c" "(of_nat (0xDC00 + y) :: 16 word) = d"
    by (simp_all only: xy of_nat_unat ucast_id)
  ultimately show ?thesis by (simp only: x_def y_def)
qed

lemma utf16_units_unit: "utf16_units (unat c) = [c]"
  using unat_unit_less [of c] by (simp add: utf16_units_def)

lemma utf16_usv_scalars:
  "isWellFormed s \<Longrightarrow> concat (map utf16_units (usv_scalars s)) = s"
proof (induction s rule: usv_scalars.induct)
  case (1 c d cs)
  then show ?case by (auto simp: utf16_units_pair utf16_units_unit)
next
  case (2 c)
  then show ?case by (simp add: utf16_units_unit)
qed simp

lemma usv_scalars_plain:
  "\<not> is_high_surrogate c \<Longrightarrow> \<not> is_low_surrogate c \<Longrightarrow>
   usv_scalars (c # cs) = unat c # usv_scalars cs"
  by (cases cs) simp_all

lemma ascii_not_surrogate:
  "unat c < 128 \<Longrightarrow> \<not> is_high_surrogate c \<and> \<not> is_low_surrogate c"
  by (simp add: is_high_surrogate_def is_low_surrogate_def)

lemma usv_scalars_ascii_append:
  "\<forall>c \<in> set a. unat c < 128 \<Longrightarrow> usv_scalars (a @ m) = map unat a @ usv_scalars m"
  by (induction a) (simp_all add: usv_scalars_plain ascii_not_surrogate)

lemma utf16_units_ascii: "concat (map (utf16_units \<circ> unat) a) = a"
  by (induction a) (simp_all add: utf16_units_unit)

lemma toWellFormed_id: "isWellFormed s \<Longrightarrow> toWellFormed s = s"
  by (simp add: toWellFormed_def utf16_usv_scalars)

lemma toWellFormed_ascii: "\<forall>c \<in> set s. unat c < 128 \<Longrightarrow> toWellFormed s = s"
  using usv_scalars_ascii_append [of s "[]"] by (simp add: toWellFormed_def utf16_units_ascii)

lemma TextDecoder_TextEncoder_prefix:
  assumes "\<forall>c \<in> set a. unat c < 128" and "a \<noteq> []"
  shows "TextDecoder_decode (TextEncoder_encode (a @ m)) = a @ toWellFormed m"
proof -
  obtain c a' where a: "a = c # a'" using assms(2) by (cases a) auto
  have "unat c \<noteq> 0xFEFF" using assms(1) a by auto
  then have "strip_bom (map unat a @ usv_scalars m) = map unat a @ usv_scalars m"
    by (simp add: strip_bom_def a)
  then show ?thesis
    using assms(1)
    by (simp add: TextDecoder_TextEncoder usv_scalars_ascii_append toWellFormed_def
        utf16_units_ascii)
qed

lemma usv_scalars_head:
  "c \<noteq> 0xFEFF \<Longrightarrow> strip_bom (usv_scalars (c # cs)) = usv_scalars (c # cs)"
proof -
  assume c: "c \<noteq> 0xFEFF"
  have u: "unat c \<noteq> 0xFEFF"
  proof
    assume "unat c = 0xFEFF"
    then have "(of_nat (unat c) :: 16 word) = of_nat 0xFEFF" by simp
    then show False using c by simp
  qed
  show ?thesis
  proof (cases cs)
    case Nil
    then show ?thesis using u by (simp add: strip_bom_def)
  next
    case (Cons d ds)
    then show ?thesis using u by (simp add: strip_bom_def)
  qed
qed

lemma text_round_trip:
  assumes "isWellFormed s" and "s = [] \<or> hd s \<noteq> 0xFEFF"
  shows "TextDecoder_decode (TextEncoder_encode s) = s"
proof (cases s)
  case Nil
  then show ?thesis by (simp add: TextDecoder_TextEncoder strip_bom_def)
next
  case (Cons c cs)
  then have "c \<noteq> 0xFEFF" using assms(2) by simp
  then show ?thesis
    using assms(1) Cons by (simp add: TextDecoder_TextEncoder usv_scalars_head utf16_usv_scalars)
qed

section \<open>Addresses: ten digits that parse back to the port\<close>

lemma isDigit_not_space: "isDigit c \<Longrightarrow> \<not> isStrWhiteSpaceChar c"
proof
  assume d: "isDigit c" and w: "isStrWhiteSpaceChar c"
  from w have "unat c \<in> {0x9, 0xA, 0xB, 0xC, 0xD, 0x20, 0xA0, 0x1680, 0x2028, 0x2029, 0x202F,
      0x205F, 0x3000, 0xFEFF} \<or> (0x2000 \<le> unat c \<and> unat c \<le> 0x200A)"
    unfolding isStrWhiteSpaceChar_def by auto
  with d show False by (auto simp: isDigit_def)
qed

lemma isDigit_not_sign: "isDigit c \<Longrightarrow> c \<noteq> 0x2B \<and> c \<noteq> 0x2D"
  by (auto simp: isDigit_def)

lemma isDigit_ascii: "isDigit c \<Longrightarrow> unat c < 128"
  by (simp add: isDigit_def)

lemma unat_digit: "d < 10 \<Longrightarrow> unat (of_nat (48 + d) :: 16 word) = 48 + d"
  by (rule unat_of_nat_unit) simp

lemma isDigit_of_nat: "d < 10 \<Longrightarrow> isDigit (of_nat (48 + d))"
  by (simp only: isDigit_def unat_digit) simp

lemma digit_value_of_nat: "d < 10 \<Longrightarrow> unat (of_nat (48 + d) :: 16 word) - 48 = d"
  by (simp add: unat_digit del: of_nat_add)

lemma decimal_small: "n < 10 \<Longrightarrow> decimal n = [of_nat (48 + n)]"
  by (subst decimal.simps) simp

lemma decimal_large: "\<not> n < 10 \<Longrightarrow> decimal n = decimal (n div 10) @ [of_nat (48 + n mod 10)]"
  by (subst decimal.simps) simp

lemma decimal_digits: "c \<in> set (decimal n) \<Longrightarrow> isDigit c"
proof (induction n arbitrary: c rule: decimal.induct)
  case (1 n)
  show ?case
  proof (cases "n < 10")
    case True
    then show ?thesis using 1(2) isDigit_of_nat [of n] by (simp add: decimal_small del: of_nat_add)
  next
    case False
    have "c \<in> set (decimal (n div 10)) \<or> c = of_nat (48 + n mod 10)"
      using 1(2) by (auto simp add: decimal_large [OF False] simp del: of_nat_add)
    then show ?thesis
      using 1(1) [OF False] isDigit_of_nat [of "n mod 10"] by auto
  qed
qed

lemma digits_value_snoc:
  "digits_value (ds @ [d]) = 10 * digits_value ds + (unat d - 48)"
  by (simp add: digits_value_def)

lemma digits_value_decimal: "digits_value (decimal n) = n"
proof (induction n rule: decimal.induct)
  case (1 n)
  show ?case
  proof (cases "n < 10")
    case True
    then show ?thesis
      using digit_value_of_nat [of n]
      by (simp add: decimal_small digits_value_def del: of_nat_add)
  next
    case False
    show ?thesis
      using 1 [OF False] digit_value_of_nat [of "n mod 10"]
      by (simp add: decimal_large [OF False] digits_value_snoc del: of_nat_add)
  qed
qed

lemma length_decimal: "0 < k \<Longrightarrow> n < 10 ^ k \<Longrightarrow> length (decimal n) \<le> k"
proof (induction n arbitrary: k rule: decimal.induct)
  case (1 n)
  show ?case
  proof (cases "n < 10")
    case True
    then show ?thesis using 1(2) by (simp add: decimal_small del: of_nat_add)
  next
    case False
    obtain j where k: "k = Suc j" using 1(2) by (cases k) auto
    have j: "0 < j" using False 1(3) k by (cases j) auto
    have "n div 10 < 10 ^ j" using 1(3) k by (simp add: less_mult_imp_div_less)
    then have "length (decimal (n div 10)) \<le> j" using 1(1) [OF False j] by simp
    then show ?thesis using k by (simp add: decimal_large [OF False] del: of_nat_add)
  qed
qed

lemma digits_value_zeros: "digits_value (replicate k 48 @ ds) = digits_value ds"
  unfolding digits_value_def by (induction k) simp_all

lemma parseInt_digits:
  assumes "ds \<noteq> []" and "\<forall>c \<in> set ds. isDigit c"
  shows "parseInt ds = Num (int (digits_value ds))"
proof -
  obtain c r where ds: "ds = c # r" using assms(1) by (cases ds) auto
  have c: "isDigit c" using assms(2) ds by simp
  have 1: "dropWhile isStrWhiteSpaceChar ds = ds"
    using isDigit_not_space [OF c] ds by simp
  have 2: "takeWhile isDigit ds = ds" using assms(2) by (simp add: takeWhile_eq_all_conv)
  show ?thesis
    unfolding parseInt_def 1 using isDigit_not_sign [OF c] 2 assms(1) by (simp add: ds)
qed

lemma address_digits:
  assumes "0 \<le> p" and "p < 10 ^ 10"
  shows "length (address p) = 10"
    and "\<forall>c \<in> set (address p). isDigit c"
    and "parseInt (address p) = Num p"
proof -
  have n: "nat p < 10 ^ 10" using assms by (simp add: nat_less_iff)
  have len: "length (decimal (nat p)) \<le> 10" using length_decimal [of 10 "nat p"] n by simp
  have a: "address p = replicate (10 - length (decimal (nat p))) 48 @ decimal (nat p)"
    using assms(1) by (simp add: address_def number_toString_def padStart_def)
  show l: "length (address p) = 10" using len by (simp add: a)
  have z: "isDigit 48" by (simp add: isDigit_def)
  show d: "\<forall>c \<in> set (address p). isDigit c"
    unfolding a using z by (auto dest: decimal_digits)
  have "address p \<noteq> []" using l by auto
  then have "parseInt (address p) = Num (int (digits_value (address p)))"
    using d by (rule parseInt_digits)
  also have "digits_value (address p) = nat p"
    unfolding a by (simp add: digits_value_zeros digits_value_decimal)
  finally show "parseInt (address p) = Num p" using assms(1) by simp
qed

text \<open>Whatever the port, its address is a non-empty string of ASCII characters.\<close>

lemma decimal_nonempty: "decimal n \<noteq> []"
  by (subst decimal.simps) simp

lemma address_nonempty: "address p \<noteq> []"
  by (simp add: address_def padStart_def number_toString_def decimal_nonempty)

lemma address_chars: "\<forall>c \<in> set (address p). unat c < 128"
proof
  fix c
  assume "c \<in> set (address p)"
  then have "c = 48 \<or> c = 45 \<or> (\<exists>n. c \<in> set (decimal n))"
    by (auto simp: address_def padStart_def number_toString_def split: if_splits)
  then show "unat c < 128"
    using decimal_digits isDigit_ascii by auto
qed

section \<open>Encryption and decryption\<close>

lemma importSymKey_exportSymKey:
  "length key = 16 \<or> length key = 24 \<or> length key = 32 \<Longrightarrow>
   importSymKey (exportSymKey key) = Inr key"
  by (auto simp: importSymKey_def exportSymKey_def base64_round_trip)

lemma length_base64_iv: "length iv = 16 \<Longrightarrow> length (arrayBufferToBase64 iv) = 24"
  by (simp add: length_arrayBufferToBase64)

lemma length_base64_rsa: "length c = 256 \<Longrightarrow> length (arrayBufferToBase64 c) = 344"
  by (simp add: length_arrayBufferToBase64)

lemma symEncrypt_split:
  assumes "length iv = 16"
  shows "take 24 (symEncrypt cr iv key data) = arrayBufferToBase64 iv"
    and "drop 24 (symEncrypt cr iv key data) =
           arrayBufferToBase64 (aes_cbc_encrypt cr key iv (TextEncoder_encode data))"
  using length_base64_iv [OF assms] by (simp_all add: symEncrypt_def)

lemma symDecrypt_symEncrypt:
  assumes "aes_cbc_correct cr"
    and "length key = 16 \<or> length key = 24 \<or> length key = 32"
    and "length iv = 16"
  shows "symDecrypt cr (exportSymKey key) (symEncrypt cr iv key data) =
           Inr (TextDecoder_decode (TextEncoder_encode data))"
proof -
  have "aes_cbc_decrypt cr key iv (aes_cbc_encrypt cr key iv (TextEncoder_encode data)) =
          Some (TextEncoder_encode data)"
    using assms unfolding aes_cbc_correct_def by blast
  then show ?thesis
    by (simp add: symDecrypt_def importSymKey_exportSymKey [OF assms(2)]
        symEncrypt_split [OF assms(3)] base64_round_trip)
qed

lemma base64_nonempty: "bs \<noteq> [] \<Longrightarrow> arrayBufferToBase64 bs \<noteq> []"
  using length_arrayBufferToBase64 [of bs] by (cases bs) auto

lemma rsaEncrypt_rsaDecrypt:
  assumes "rsa_key_pair cr spki pkcs8" and "length key = 32"
  shows "\<exists>c. rsaEncrypt cr seed (exportSymKey key) (exportPubKey spki) = Inr c \<and>
             length c = 344 \<and>
             decrypt_symKey cr (exportPrvKey (Some pkcs8)) c = Inr (Some (exportSymKey key))"
proof -
  from assms obtain c where c: "rsa_oaep_encrypt cr spki seed key = Some c" "length c = 256"
      "rsa_oaep_decrypt cr pkcs8 c = Some key"
    unfolding rsa_key_pair_def by force
  have imp: "importKey_spki cr spki" "importKey_pkcs8 cr pkcs8" "pkcs8 \<noteq> []"
    using assms(1) by (simp_all add: rsa_key_pair_def)
  have enc: "rsaEncrypt cr seed (exportSymKey key) (exportPubKey spki) = Inr (arrayBufferToBase64 c)"
    using c(1) imp(1)
    by (simp add: rsaEncrypt_def importPubKey_def exportSymKey_def exportPubKey_def
        base64_round_trip)
  have dec: "decrypt_symKey cr (exportPrvKey (Some pkcs8)) (arrayBufferToBase64 c) =
               Inr (Some (exportSymKey key))"
    using c(3) imp(2) base64_nonempty [OF imp(3)]
    by (simp add: importPrvKey_def rsaDecrypt_def exportSymKey_def base64_round_trip)
  show ?thesis using enc dec length_base64_rsa [OF c(2)] by blast
qed


lemma arrayBufferToBase64_inject:
  "arrayBufferToBase64 a = arrayBufferToBase64 b \<Longrightarrow> a = b"
  by (metis base64_round_trip)

lemma symEncrypt_iv_inject:
  assumes "length iv1 = 16" and "length iv2 = 16"
    and "symEncrypt cr iv1 key data = symEncrypt cr iv2 key data"
  shows "iv1 = iv2"
proof -
  have "take 24 (symEncrypt cr iv1 key data) = take 24 (symEncrypt cr iv2 key data)"
    using assms(3) by simp
  then have "arrayBufferToBase64 iv1 = arrayBufferToBase64 iv2"
    by (simp only: symEncrypt_split(1) [OF assms(1)] symEncrypt_split(1) [OF assms(2)])
  then show ?thesis by (rule arrayBufferToBase64_inject)
qed

section \<open>The stand-in primitives meet the assumptions\<close>

lemma toy_aes_cbc_correct: "aes_cbc_correct toy_crypto"
  by (simp add: aes_cbc_correct_def toy_crypto_def o_def)

lemma toy_rsa_key_pair: "key \<noteq> [] \<Longrightarrow> rsa_key_pair toy_crypto key key"
  by (simp add: rsa_key_pair_def toy_crypto_def unat_of_nat_byte o_def)



lemma isWellFormed_hello: "isWellFormed (ascii ''hello'')"
  by (simp add: ascii_def is_high_surrogate_def is_low_surrogate_def)

lemma hello_no_bom: "hd (ascii ''hello'') \<noteq> 0xFEFF"
  by (simp add: ascii_def)

section \<open>One hop: a router peels the layer wrapped for it\<close>

lemma router_message_peeled:
  assumes "decrypt_symKey cr privateKey (take 344 layer) = Inr symKey"
    and "decrypt_message cr symKey (drop 344 layer) = Inr message"
  shows "router_message cr routerId privateKey downstream st (Some layer) =
           (record_message routerId layer message,
            post_then_respond (lastMessageDestination (record_message routerId layer message))
              (lastReceivedDecryptedMessage (record_message routerId layer message)) downstream)"
  using assms by (simp add: router_message_def Let_def split_beta)

lemma record_message_address:
  assumes "0 \<le> p" and "p < 10 ^ 10"
  shows "record_message routerId layer (Some (address p @ inner)) =
           \<lparr>lastReceivedEncryptedMessage = Some layer,
            lastReceivedDecryptedMessage = Some inner,
            lastMessageSource = Some routerId,
            lastMessageDestination = Some (Num p)\<rparr>"
proof -
  have l: "length (address p) = 10" using address_digits(1) [OF assms] .
  then have ne: "address p \<noteq> []" by auto
  show ?thesis
    using l ne address_digits(3) [OF assms] by (simp add: record_message_def)
qed

lemma hop_to:
  assumes aes: "aes_cbc_correct cr"
    and pair: "rsa_key_pair cr spki pkcs8"
    and key: "length (fresh_symKey r) = 32"
    and iv: "length (fresh_iv r) = 16"
    and a: "\<forall>c \<in> set a. unat c < 128" "a \<noteq> []"
  shows "\<exists>layer.
           wrap_layer cr B r (Some \<lparr>nodeId = nid, pubKey = exportPubKey spki\<rparr>) a inner =
             Inr (address (B + nid), layer)
         \<and> (\<forall>c \<in> set layer. unat c < 128)
         \<and> (\<forall>routerId downstream st.
              router_message cr routerId (exportPrvKey (Some pkcs8)) downstream st (Some layer) =
                (record_message routerId layer (Some (a @ toWellFormed inner)),
                 post_then_respond
                   (lastMessageDestination
                      (record_message routerId layer (Some (a @ toWellFormed inner))))
                   (lastReceivedDecryptedMessage
                      (record_message routerId layer (Some (a @ toWellFormed inner))))
                   downstream))"
proof -
  let ?k = "fresh_symKey r"
  let ?enc = "symEncrypt cr (fresh_iv r) ?k (a @ inner)"
  obtain c where c: "rsaEncrypt cr (fresh_seed r) (exportSymKey ?k) (exportPubKey spki) = Inr c"
      "length c = 344"
      "decrypt_symKey cr (exportPrvKey (Some pkcs8)) c = Inr (Some (exportSymKey ?k))"
    using rsaEncrypt_rsaDecrypt [OF pair key] by blast
  have wrap: "wrap_layer cr B r (Some \<lparr>nodeId = nid, pubKey = exportPubKey spki\<rparr>) a inner =
      Inr (address (B + nid), c @ ?enc)"
    using c(1) by (simp add: Let_def)
  have c_b64: "\<exists>bs. c = arrayBufferToBase64 bs"
    using c(1) by (auto simp: rsaEncrypt_def split: sum.splits option.splits)
  have ascii_layer: "\<forall>x \<in> set (c @ ?enc). unat x < 128"
    using c_b64 by (auto simp: symEncrypt_def Let_def dest: arrayBufferToBase64_ascii)
  have "?k \<noteq> []" using key by auto
  then have knz: "exportSymKey ?k \<noteq> []"
    unfolding exportSymKey_def by (rule base64_nonempty)
  have "symDecrypt cr (exportSymKey ?k) ?enc = Inr (a @ toWellFormed inner)"
    using symDecrypt_symEncrypt [OF aes _ iv, of ?k "a @ inner"] key
      TextDecoder_TextEncoder_prefix [OF a, of inner]
    by simp
  then have msg: "decrypt_message cr (Some (exportSymKey ?k)) (drop 344 (c @ ?enc)) =
      Inr (Some (a @ toWellFormed inner))"
    using knz c(2) by simp
  have sk: "decrypt_symKey cr (exportPrvKey (Some pkcs8)) (take 344 (c @ ?enc)) =
      Inr (Some (exportSymKey ?k))"
    using c(2,3) by simp
  have "router_message cr routerId (exportPrvKey (Some pkcs8)) downstream st (Some (c @ ?enc)) =
          (record_message routerId (c @ ?enc) (Some (a @ toWellFormed inner)),
           post_then_respond
             (lastMessageDestination
                (record_message routerId (c @ ?enc) (Some (a @ toWellFormed inner))))
             (lastReceivedDecryptedMessage
                (record_message routerId (c @ ?enc) (Some (a @ toWellFormed inner))))
             downstream)"
    for routerId downstream st
    by (rule router_message_peeled [OF sk msg])
  then show ?thesis using wrap ascii_layer by blast
qed

lemma hop:
  assumes aes: "aes_cbc_correct cr"
    and pair: "rsa_key_pair cr spki pkcs8"
    and key: "length (fresh_symKey r) = 32"
    and iv: "length (fresh_iv r) = 16"
    and p: "0 \<le> p" "p < 10 ^ 10"
  shows "\<exists>layer.
           wrap_layer cr B r (Some \<lparr>nodeId = nid, pubKey = exportPubKey spki\<rparr>) (address p) inner =
             Inr (address (B + nid), layer)
         \<and> (\<forall>c \<in> set layer. unat c < 128)
         \<and> (\<forall>routerId downstream st.
              router_message cr routerId (exportPrvKey (Some pkcs8)) downstream st (Some layer) =
                (\<lparr>lastReceivedEncryptedMessage = Some layer,
                  lastReceivedDecryptedMessage = Some (toWellFormed inner),
                  lastMessageSource = Some routerId,
                  lastMessageDestination = Some (Num p)\<rparr>,
                 post_then_respond (Some (Num p)) (Some (toWellFormed inner)) downstream))"
proof -
  obtain layer where layer:
    "wrap_layer cr B r (Some \<lparr>nodeId = nid, pubKey = exportPubKey spki\<rparr>) (address p) inner =
       Inr (address (B + nid), layer)"
    "\<forall>c \<in> set layer. unat c < 128"
    "\<And>routerId downstream st.
       router_message cr routerId (exportPrvKey (Some pkcs8)) downstream st (Some layer) =
         (record_message routerId layer (Some (address p @ toWellFormed inner)),
          post_then_respond
            (lastMessageDestination
               (record_message routerId layer (Some (address p @ toWellFormed inner))))
            (lastReceivedDecryptedMessage
               (record_message routerId layer (Some (address p @ toWellFormed inner))))
            downstream)"
    using hop_to [OF aes pair key iv address_chars address_nonempty, of B nid p inner] by blast
  have "router_message cr routerId (exportPrvKey (Some pkcs8)) downstream st (Some layer) =
          (\<lparr>lastReceivedEncryptedMessage = Some layer,
            lastReceivedDecryptedMessage = Some (toWellFormed inner),
            lastMessageSource = Some routerId,
            lastMessageDestination = Some (Num p)\<rparr>,
           post_then_respond (Some (Num p)) (Some (toWellFormed inner)) downstream)"
    for routerId downstream st
    by (simp only: layer(3) record_message_address [OF p] router_state.simps)
  then show ?thesis using layer(1,2) by blast
qed

section \<open>Three hops\<close>

lemma three_hops_to:
  assumes aes: "aes_cbc_correct cr"
    and pairs: "rsa_key_pair cr spki0 pkcs80" "rsa_key_pair cr spki1 pkcs81"
      "rsa_key_pair cr spki2 pkcs82"
    and rnd: "\<forall>i<3. length (fresh_symKey (rnd i)) = 32 \<and> length (fresh_iv (rnd i)) = 16"
    and port0: "0 \<le> BOR + id0" "BOR + id0 < 10 ^ 10"
    and port1: "0 \<le> BOR + id1" "BOR + id1 < 10 ^ 10"
  shows "\<exists>L2 L1 L0.
           onion_route cr BUP BOR rnd
             [(\<lparr>nodeId = id0, pubKey = exportPubKey spki0\<rparr>, exportPrvKey (Some pkcs80), f0, s0),
              (\<lparr>nodeId = id1, pubKey = exportPubKey spki1\<rparr>, exportPrvKey (Some pkcs81), f1, s1),
              (\<lparr>nodeId = id2, pubKey = exportPubKey spki2\<rparr>, exportPrvKey (Some pkcs82), f2, s2)]
             M d =
           Inr [\<lparr>lastReceivedEncryptedMessage = Some L2, lastReceivedDecryptedMessage = Some L1,
                 lastMessageSource = Some id2, lastMessageDestination = Some (Num (BOR + id1))\<rparr>,
                \<lparr>lastReceivedEncryptedMessage = Some L1, lastReceivedDecryptedMessage = Some L0,
                 lastMessageSource = Some id1, lastMessageDestination = Some (Num (BOR + id0))\<rparr>,
                record_message id0 L0 (Some (address (BUP + d) @ toWellFormed M))]
         \<and> snd (router_message cr id0 (exportPrvKey (Some pkcs80)) f0 s0 (Some L0)) =
             post_then_respond
               (lastMessageDestination
                  (record_message id0 L0 (Some (address (BUP + d) @ toWellFormed M))))
               (lastReceivedDecryptedMessage
                  (record_message id0 L0 (Some (address (BUP + d) @ toWellFormed M))))
               f0"
proof -
  have r0: "length (fresh_symKey (rnd 0)) = 32" "length (fresh_iv (rnd 0)) = 16"
    and r1: "length (fresh_symKey (rnd (Suc 0))) = 32" "length (fresh_iv (rnd (Suc 0))) = 16"
    and r2: "length (fresh_symKey (rnd (Suc (Suc 0)))) = 32"
      "length (fresh_iv (rnd (Suc (Suc 0)))) = 16"
    using rnd by simp_all
  obtain L0 where L0:
    "wrap_layer cr BOR (rnd 0) (Some \<lparr>nodeId = id0, pubKey = exportPubKey spki0\<rparr>)
       (address (BUP + d)) M = Inr (address (BOR + id0), L0)"
    "\<forall>c \<in> set L0. unat c < 128"
    "\<And>routerId downstream st.
       router_message cr routerId (exportPrvKey (Some pkcs80)) downstream st (Some L0) =
         (record_message routerId L0 (Some (address (BUP + d) @ toWellFormed M)),
          post_then_respond
            (lastMessageDestination
               (record_message routerId L0 (Some (address (BUP + d) @ toWellFormed M))))
            (lastReceivedDecryptedMessage
               (record_message routerId L0 (Some (address (BUP + d) @ toWellFormed M))))
            downstream)"
    using hop_to [OF aes pairs(1) r0 address_chars address_nonempty, of BOR id0 "BUP + d" M]
    by blast
  obtain L1 where L1:
    "wrap_layer cr BOR (rnd (Suc 0)) (Some \<lparr>nodeId = id1, pubKey = exportPubKey spki1\<rparr>)
       (address (BOR + id0)) L0 = Inr (address (BOR + id1), L1)"
    "\<forall>c \<in> set L1. unat c < 128"
    "\<And>routerId downstream st.
       router_message cr routerId (exportPrvKey (Some pkcs81)) downstream st (Some L1) =
         (\<lparr>lastReceivedEncryptedMessage = Some L1,
           lastReceivedDecryptedMessage = Some (toWellFormed L0),
           lastMessageSource = Some routerId,
           lastMessageDestination = Some (Num (BOR + id0))\<rparr>,
          post_then_respond (Some (Num (BOR + id0))) (Some (toWellFormed L0)) downstream)"
    using hop [OF aes pairs(2) r1 port0, of BOR id1 L0] by blast
  obtain L2 where L2:
    "wrap_layer cr BOR (rnd (Suc (Suc 0))) (Some \<lparr>nodeId = id2, pubKey = exportPubKey spki2\<rparr>)
       (address (BOR + id1)) L1 = Inr (address (BOR + id2), L2)"
    "\<And>routerId downstream st.
       router_message cr routerId (exportPrvKey (Some pkcs82)) downstream st (Some L2) =
         (\<lparr>lastReceivedEncryptedMessage = Some L2,
           lastReceivedDecryptedMessage = Some (toWellFormed L1),
           lastMessageSource = Some routerId,
           lastMessageDestination = Some (Num (BOR + id1))\<rparr>,
          post_then_respond (Some (Num (BOR + id1))) (Some (toWellFormed L1)) downstream)"
    using hop [OF aes pairs(3) r2 port1, of BOR id2 L1] by blast
  have wf: "toWellFormed L0 = L0" "toWellFormed L1 = L1"
    using L0(2) L1(2) by (simp_all add: toWellFormed_ascii)
  have loop: "onion_loop cr BOR rnd 0
      [Some \<lparr>nodeId = id0, pubKey = exportPubKey spki0\<rparr>,
       Some \<lparr>nodeId = id1, pubKey = exportPubKey spki1\<rparr>,
       Some \<lparr>nodeId = id2, pubKey = exportPubKey spki2\<rparr>] (address (BUP + d)) M = Inr L2"
    by (simp only: onion_loop.simps L0(1) L1(1) L2(1) sum.case prod.case Nat.add_0 One_nat_def
        add_Suc)
  have "onion_route cr BUP BOR rnd
          [(\<lparr>nodeId = id0, pubKey = exportPubKey spki0\<rparr>, exportPrvKey (Some pkcs80), f0, s0),
           (\<lparr>nodeId = id1, pubKey = exportPubKey spki1\<rparr>, exportPrvKey (Some pkcs81), f1, s1),
           (\<lparr>nodeId = id2, pubKey = exportPubKey spki2\<rparr>, exportPrvKey (Some pkcs82), f2, s2)]
          M d =
        Inr [\<lparr>lastReceivedEncryptedMessage = Some L2, lastReceivedDecryptedMessage = Some L1,
              lastMessageSource = Some id2, lastMessageDestination = Some (Num (BOR + id1))\<rparr>,
             \<lparr>lastReceivedEncryptedMessage = Some L1, lastReceivedDecryptedMessage = Some L0,
              lastMessageSource = Some id1, lastMessageDestination = Some (Num (BOR + id0))\<rparr>,
             record_message id0 L0 (Some (address (BUP + d) @ toWellFormed M))]"
    unfolding onion_route_def
    by (simp add: loop L0(3) L1(3) L2(2) wf Let_def
        del: onion_loop.simps exportPrvKey.simps)
  moreover have "snd (router_message cr id0 (exportPrvKey (Some pkcs80)) f0 s0 (Some L0)) =
      post_then_respond
        (lastMessageDestination
           (record_message id0 L0 (Some (address (BUP + d) @ toWellFormed M))))
        (lastReceivedDecryptedMessage
           (record_message id0 L0 (Some (address (BUP + d) @ toWellFormed M))))
        f0"
    by (simp only: L0(3) snd_conv)
  ultimately show ?thesis by blast
qed

lemma three_hops:
  assumes aes: "aes_cbc_correct cr"
    and pairs: "rsa_key_pair cr spki0 pkcs80" "rsa_key_pair cr spki1 pkcs81"
      "rsa_key_pair cr spki2 pkcs82"
    and rnd: "\<forall>i<3. length (fresh_symKey (rnd i)) = 32 \<and> length (fresh_iv (rnd i)) = 16"
    and user: "0 \<le> BUP + d" "BUP + d < 10 ^ 10"
    and port0: "0 \<le> BOR + id0" "BOR + id0 < 10 ^ 10"
    and port1: "0 \<le> BOR + id1" "BOR + id1 < 10 ^ 10"
  shows "\<exists>L2 L1 L0.
           onion_route cr BUP BOR rnd
             [(\<lparr>nodeId = id0, pubKey = exportPubKey spki0\<rparr>, exportPrvKey (Some pkcs80), f0, s0),
              (\<lparr>nodeId = id1, pubKey = exportPubKey spki1\<rparr>, exportPrvKey (Some pkcs81), f1, s1),
              (\<lparr>nodeId = id2, pubKey = exportPubKey spki2\<rparr>, exportPrvKey (Some pkcs82), f2, s2)]
             M d =
           Inr [\<lparr>lastReceivedEncryptedMessage = Some L2, lastReceivedDecryptedMessage = Some L1,
                 lastMessageSource = Some id2, lastMessageDestination = Some (Num (BOR + id1))\<rparr>,
                \<lparr>lastReceivedEncryptedMessage = Some L1, lastReceivedDecryptedMessage = Some L0,
                 lastMessageSource = Some id1, lastMessageDestination = Some (Num (BOR + id0))\<rparr>,
                \<lparr>lastReceivedEncryptedMessage = Some L0,
                 lastReceivedDecryptedMessage = Some (toWellFormed M),
                 lastMessageSource = Some id0, lastMessageDestination = Some (Num (BUP + d))\<rparr>]
         \<and> snd (router_message cr id0 (exportPrvKey (Some pkcs80)) f0 s0 (Some L0)) =
             post_then_respond (Some (Num (BUP + d))) (Some (toWellFormed M)) f0"
proof -
  obtain L2 L1 L0 where route:
    "onion_route cr BUP BOR rnd
       [(\<lparr>nodeId = id0, pubKey = exportPubKey spki0\<rparr>, exportPrvKey (Some pkcs80), f0, s0),
        (\<lparr>nodeId = id1, pubKey = exportPubKey spki1\<rparr>, exportPrvKey (Some pkcs81), f1, s1),
        (\<lparr>nodeId = id2, pubKey = exportPubKey spki2\<rparr>, exportPrvKey (Some pkcs82), f2, s2)]
       M d =
     Inr [\<lparr>lastReceivedEncryptedMessage = Some L2, lastReceivedDecryptedMessage = Some L1,
           lastMessageSource = Some id2, lastMessageDestination = Some (Num (BOR + id1))\<rparr>,
          \<lparr>lastReceivedEncryptedMessage = Some L1, lastReceivedDecryptedMessage = Some L0,
           lastMessageSource = Some id1, lastMessageDestination = Some (Num (BOR + id0))\<rparr>,
          record_message id0 L0 (Some (address (BUP + d) @ toWellFormed M))]"
    and last: "snd (router_message cr id0 (exportPrvKey (Some pkcs80)) f0 s0 (Some L0)) =
      post_then_respond
        (lastMessageDestination
           (record_message id0 L0 (Some (address (BUP + d) @ toWellFormed M))))
        (lastReceivedDecryptedMessage
           (record_message id0 L0 (Some (address (BUP + d) @ toWellFormed M))))
        f0"
    using three_hops_to [OF aes pairs rnd port0 port1] by blast
  note r = record_message_address [OF user]
  have "onion_route cr BUP BOR rnd
          [(\<lparr>nodeId = id0, pubKey = exportPubKey spki0\<rparr>, exportPrvKey (Some pkcs80), f0, s0),
           (\<lparr>nodeId = id1, pubKey = exportPubKey spki1\<rparr>, exportPrvKey (Some pkcs81), f1, s1),
           (\<lparr>nodeId = id2, pubKey = exportPubKey spki2\<rparr>, exportPrvKey (Some pkcs82), f2, s2)]
          M d =
        Inr [\<lparr>lastReceivedEncryptedMessage = Some L2, lastReceivedDecryptedMessage = Some L1,
              lastMessageSource = Some id2, lastMessageDestination = Some (Num (BOR + id1))\<rparr>,
             \<lparr>lastReceivedEncryptedMessage = Some L1, lastReceivedDecryptedMessage = Some L0,
              lastMessageSource = Some id1, lastMessageDestination = Some (Num (BOR + id0))\<rparr>,
             \<lparr>lastReceivedEncryptedMessage = Some L0,
              lastReceivedDecryptedMessage = Some (toWellFormed M),
              lastMessageSource = Some id0, lastMessageDestination = Some (Num (BUP + d))\<rparr>]"
    using route by (simp only: r)
  moreover have "snd (router_message cr id0 (exportPrvKey (Some pkcs80)) f0 s0 (Some L0)) =
      post_then_respond (Some (Num (BUP + d))) (Some (toWellFormed M)) f0"
    using last by (simp only: r router_state.simps)
  ultimately show ?thesis by blast
qed

lemma example_rnd_lengths:
  "\<forall>i<3. length (fresh_symKey (example_rnd i)) = 32 \<and> length (fresh_iv (example_rnd i)) = 16"
  by (simp add: example_rnd_def)

lemma example_circuit_eq:
  "example_circuit =
     [(\<lparr>nodeId = 0, pubKey = exportPubKey [1]\<rparr>, exportPrvKey (Some [1]), Resolved, router_init),
      (\<lparr>nodeId = 1, pubKey = exportPubKey [2]\<rparr>, exportPrvKey (Some [2]), Resolved, router_init),
      (\<lparr>nodeId = 2, pubKey = exportPubKey [3]\<rparr>, exportPrvKey (Some [3]), Resolved, router_init)]"
  by (simp add: example_circuit_def example_node_def example_key_def)






section \<open>The circuit-selection loop\<close>

text \<open>
  With \<open>Math.random()\<close> in \<open>[0, 1)\<close> the index is below the length of a directory
  that is not empty, and 0 for an empty one, where \<open>nodes[0]\<close> is \<open>undefined\<close>.
\<close>

lemma randomIndex_less:
  assumes "0 \<le> random k" and "random k < 1" and "ns \<noteq> []"
  shows "randomIndex ns random k < length ns"
proof -
  have pos: "0 < real (length ns)" using assms(3) by simp
  have "random k * real (length ns) < real (length ns)"
    using assms(2) pos by simp
  then have "\<lfloor>random k * real (length ns)\<rfloor> < int (length ns)"
    by (simp add: floor_less_iff)
  moreover have "0 \<le> \<lfloor>random k * real (length ns)\<rfloor>"
    using assms(1) by simp
  ultimately show ?thesis unfolding randomIndex_def by linarith
qed

lemma every_index_run_drawn:
  assumes "\<forall>k. idx k < length ns"
  shows "\<exists>random. (\<forall>k. 0 \<le> random k \<and> random k < 1)
                \<and> (\<forall>k. randomIndex ns random k = idx k)"
proof -
  define random where "random = (\<lambda>k. real (idx k) / real (length ns))"
  have n: "0 < length ns" using assms [rule_format, of 0] by (cases ns) simp_all
  have "0 \<le> random k \<and> random k < 1" for k
    using assms [rule_format, of k] n by (simp add: random_def)
  moreover have "randomIndex ns random k = idx k" for k
    using n by (simp add: randomIndex_def random_def)
  ultimately show ?thesis by blast
qed

lemma randomIndex_empty: "randomIndex [] random k = 0"
  by (simp add: randomIndex_def)

lemma nodes_at_random:
  assumes "0 \<le> random k" and "random k < 1"
  shows "nodes_at ns (randomIndex ns random k) =
           (if ns = [] then Undefined else Ref (randomIndex ns random k))"
  using randomIndex_less [of random k ns] assms by (simp add: nodes_at_def)

lemma circuit_loop_invariant:
  assumes "circuit_loop ns random k circuit = Some r"
    and "\<forall>i. 0 \<le> random i \<and> random i < 1"
    and "distinct circuit" and "length circuit \<le> 3"
    and "\<forall>x \<in> set circuit. if ns = [] then x = Undefined else \<exists>i<length ns. x = Ref i"
  shows "length (fst r) = 3 \<and> distinct (fst r)
       \<and> (\<forall>x \<in> set (fst r). if ns = [] then x = Undefined else \<exists>i<length ns. x = Ref i)"
  using assms
proof (induction ns random k circuit r rule: circuit_loop.raw_induct [rotated 1, consumes 1])
  case (1 loop ns random k circuit r)
  show ?case
  proof (cases "length circuit < 3")
    case False
    then have "r = (circuit, k)" using 1(2) by simp
    then show ?thesis using False 1(4,5,6) by simp
  next
    case True
    let ?x = "nodes_at ns (randomIndex ns random k)"
    have x: "if ns = [] then ?x = Undefined else \<exists>i<length ns. ?x = Ref i"
      using 1(3) randomIndex_less [of random k ns] by (simp add: nodes_at_def)
    show ?thesis
    proof (cases "?x \<in> set circuit")
      case True
      then have "loop ns random (k + 1) circuit = Some r"
        using 1(2) \<open>length circuit < 3\<close> by simp
      from 1(1) [OF this 1(3,4,5,6)] show ?thesis .
    next
      case False
      then have run: "loop ns random (k + 1) (circuit @ [?x]) = Some r"
        using 1(2) \<open>length circuit < 3\<close> by simp
      have "distinct (circuit @ [?x])" using False 1(4) by simp
      moreover have "length (circuit @ [?x]) \<le> 3" using \<open>length circuit < 3\<close> by simp
      moreover have "\<forall>y \<in> set (circuit @ [?x]).
          if ns = [] then y = Undefined else \<exists>i<length ns. y = Ref i"
        using 1(6) x by auto
      ultimately show ?thesis using 1(1) [OF run 1(3)] by blast
    qed
  qed
qed

lemma few_candidates:
  assumes "length ns < 3" and "distinct c"
    and "\<forall>x \<in> set c. if ns = [] then x = Undefined else \<exists>i<length ns. x = Ref i"
  shows "length c < 3"
proof -
  have "set c \<subseteq> (if ns = [] then {Undefined} else Ref ` {..<length ns})"
    using assms(3) by (auto split: if_splits)
  then have "card (set c) \<le> card (if ns = [] then {Undefined} else Ref ` {..<length ns})"
    by (intro card_mono) (auto split: if_splits)
  also have "\<dots> \<le> 2"
    using assms(1) card_image_le [of "{..<length ns}" Ref] by (auto split: if_splits)
  finally show ?thesis using distinct_card [OF assms(2)] by simp
qed

lemma circuit_loop_diverges:
  assumes "\<forall>i. 0 \<le> random i \<and> random i < 1" and "length ns < 3"
  shows "circuit_loop ns random 0 [] = None"
proof (cases "circuit_loop ns random 0 []")
  case None
  then show ?thesis .
next
  case (Some r)
  have "length (fst r) = 3 \<and> distinct (fst r)
       \<and> (\<forall>x \<in> set (fst r). if ns = [] then x = Undefined else \<exists>i<length ns. x = Ref i)"
    by (rule circuit_loop_invariant [OF Some assms(1)]) simp_all
  then have "length (fst r) < 3" using few_candidates [OF assms(2), of "fst r"] by blast
  then show ?thesis using \<open>length (fst r) = 3 \<and> _\<close> by simp
qed

lemma circuit_loop_progress:
  assumes range: "\<forall>i. 0 \<le> random i \<and> random i < 1"
    and ns: "ns \<noteq> []"
    and hits: "a < T" "b < T" "c < T"
      "randomIndex ns random a \<noteq> randomIndex ns random b"
      "randomIndex ns random a \<noteq> randomIndex ns random c"
      "randomIndex ns random b \<noteq> randomIndex ns random c"
    and inv: "distinct circuit"
      "length circuit < 3 \<longrightarrow> set circuit = (\<lambda>i. Ref (randomIndex ns random i)) ` {..<k}"
    and n: "n = T - k"
  shows "\<exists>r. circuit_loop ns random k circuit = Some r"
  using inv n
proof (induction n arbitrary: k circuit)
  case 0
  have "3 \<le> length circuit"
  proof (rule ccontr)
    assume "\<not> 3 \<le> length circuit"
    then have s: "set circuit = (\<lambda>i. Ref (randomIndex ns random i)) ` {..<k}"
      using 0(2) by simp
    have "T \<le> k" using 0(3) by simp
    then have "{Ref (randomIndex ns random a), Ref (randomIndex ns random b),
        Ref (randomIndex ns random c)} \<subseteq> set circuit"
      using hits(1,2,3) unfolding s by auto
    then have "card {Ref (randomIndex ns random a), Ref (randomIndex ns random b),
        Ref (randomIndex ns random c)} \<le> card (set circuit)"
      by (intro card_mono) auto
    moreover have "card {Ref (randomIndex ns random a), Ref (randomIndex ns random b),
        Ref (randomIndex ns random c)} = 3"
      using hits(4,5,6) by simp
    ultimately show False
      using distinct_card [OF 0(1)] \<open>\<not> 3 \<le> length circuit\<close> by simp
  qed
  then show ?case by (subst circuit_loop.simps) simp
next
  case (Suc n)
  show ?case
  proof (cases "length circuit < 3")
    case False
    then show ?thesis by (subst circuit_loop.simps) simp
  next
    case True
    let ?x = "nodes_at ns (randomIndex ns random k)"
    have x: "?x = Ref (randomIndex ns random k)"
      using nodes_at_random [of random k ns] range ns by simp
    have s: "set circuit = (\<lambda>i. Ref (randomIndex ns random i)) ` {..<k}"
      using Suc(3) True by simp
    have n: "n = T - (k + 1)" using Suc(4) by simp
    show ?thesis
    proof (cases "?x \<in> set circuit")
      case True
      have "set circuit = (\<lambda>i. Ref (randomIndex ns random i)) ` {..<k + 1}"
        using True s x by (auto simp: less_Suc_eq)
      then obtain r where "circuit_loop ns random (k + 1) circuit = Some r"
        using Suc(1) [OF Suc(2) _ n] by blast
      then show ?thesis
        using True \<open>length circuit < 3\<close> by (subst circuit_loop.simps) simp
    next
      case False
      have "distinct (circuit @ [?x])" using False Suc(2) by simp
      moreover have "set (circuit @ [?x]) = (\<lambda>i. Ref (randomIndex ns random i)) ` {..<k + 1}"
        using s x by (auto simp: less_Suc_eq)
      ultimately obtain r where "circuit_loop ns random (k + 1) (circuit @ [?x]) = Some r"
        using Suc(1) [OF _ _ n] by blast
      then show ?thesis
        using False \<open>length circuit < 3\<close> by (subst circuit_loop.simps) simp
    qed
  qed
qed

lemma circuit_loop_terminates:
  assumes "\<forall>i. 0 \<le> random i \<and> random i < 1" and "3 \<le> length ns"
    and "randomIndex ns random a \<noteq> randomIndex ns random b"
    and "randomIndex ns random a \<noteq> randomIndex ns random c"
    and "randomIndex ns random b \<noteq> randomIndex ns random c"
  shows "\<exists>r. circuit_loop ns random 0 [] = Some r"
proof -
  have ns: "ns \<noteq> []" using assms(2) by auto
  show ?thesis
    by (rule circuit_loop_progress [OF assms(1) ns _ _ _ assms(3,4,5), of "Suc (max a (max b c))"])
      simp_all
qed

lemma example_random_range: "\<forall>i. 0 \<le> example_random i \<and> example_random i < 1"
  by (simp add: example_random_def)

lemma example_randomIndex:
  "randomIndex example_nodes example_random 0 = 0"
  "randomIndex example_nodes example_random 2 = 1"
  "randomIndex example_nodes example_random 3 = 2"
  by (simp_all add: randomIndex_def example_random_def example_nodes_def)

section \<open>What /sendMessage posts\<close>

text \<open>
  When the selection loop returns and every layer is built, the handler posts the
  onion of \<open>onion_loop\<close> over the chosen circuit to the port of the node chosen last,
  which is the first node of the reversed circuit.
\<close>

lemma user_sendMessage_posts_onion:
  assumes "circuit_loop ns random 0 [] = Some (circuit, k)"
    and "onion_loop cr BASE_ONION_ROUTER_PORT rnd 0 (map (deref ns) circuit)
           (address (BASE_USER_PORT + destinationUserId)) message = Inr onion"
    and "rev (map (deref ns) circuit) = Some entryNode # others"
  shows "user_sendMessage cr BASE_USER_PORT BASE_ONION_ROUTER_PORT random rnd downstream ns st
           message destinationUserId =
         Some (st\<lparr>lastSentMessage := Some message,
                   lastCircuit := concat (map (\<lambda>n. case n of None \<Rightarrow> [] | Some x \<Rightarrow> [x])
                                     (rev (map (deref ns) circuit)))\<rparr>,
               post_then_respond (Some (Num (BASE_ONION_ROUTER_PORT + nodeId entryNode)))
                 (Some onion) downstream)"
  using assms by (simp add: user_sendMessage_def send_onion_def Let_def split_beta)

section \<open>The registry: claim C6\<close>

lemma nodes_registerAll:
  "nodes (registerAll body reqs) =
     nodes body @ map (\<lambda>(nid, pk). \<lparr>nodeId = nid, pubKey = pk\<rparr>) reqs"
  by (induction body reqs rule: registerAll.induct) (simp_all add: registerNode_def)

text \<open>
  Claim C6. The directory is append-only and keeps insertion order: one
  \<open>registerNode\<close> call appends one entry, whatever is registered already; a listing
  taken after any run of registrations returns the earlier entries, then one entry
  per request in the order of the requests; registering the same nodeId twice
  leaves two entries, and every listing after any further registrations still
  returns both, in the order they were registered.
\<close>

theorem registry_append_only:
  "nodes (getNodeRegistry (fst (registerNode body nid pk))) =
     nodes body @ [\<lparr>nodeId = nid, pubKey = pk\<rparr>]
   \<and> nodes (getNodeRegistry (registerAll body reqs)) =
     nodes body @ map (\<lambda>(nid, pk). \<lparr>nodeId = nid, pubKey = pk\<rparr>) reqs
   \<and> nodes (getNodeRegistry
        (registerAll (fst (registerNode (fst (registerNode body nid pk)) nid pk')) later)) =
     nodes body @ [\<lparr>nodeId = nid, pubKey = pk\<rparr>, \<lparr>nodeId = nid, pubKey = pk'\<rparr>]
       @ map (\<lambda>(nid, pk). \<lparr>nodeId = nid, pubKey = pk\<rparr>) later"
  by (simp add: nodes_registerAll getNodeRegistry_def registerNode_def)

section \<open>Symmetric encryption: claims C5 and C8\<close>

text \<open>
  Claim C5, as amended. For every AES key \<open>k\<close> of 128, 192 or 256 bits, every 16-byte
  IV and every plaintext \<open>m\<close> that is well formed (no unpaired surrogate) and does not
  begin with U+FEFF, \<open>symDecrypt(exportSymKey(k), symEncrypt(k, m))\<close> returns \<open>m\<close>;
  the blob is the base64 of the IV, exactly 24 characters, followed by the base64 of
  the ciphertext, and splitting it at 24 characters gives back the two parts.
\<close>

theorem symDecrypt_symEncrypt_round_trip:
  assumes "aes_cbc_correct cr"
    and "length k = 16 \<or> length k = 24 \<or> length k = 32"
    and "length iv = 16"
    and "isWellFormed m"
    and "m = [] \<or> hd m \<noteq> 0xFEFF"
  shows "symDecrypt cr (exportSymKey k) (symEncrypt cr iv k m) = Inr m
       \<and> length (arrayBufferToBase64 iv) = 24
       \<and> take 24 (symEncrypt cr iv k m) = arrayBufferToBase64 iv
       \<and> drop 24 (symEncrypt cr iv k m) =
           arrayBufferToBase64 (aes_cbc_encrypt cr k iv (TextEncoder_encode m))"
  using symDecrypt_symEncrypt [OF assms(1,2,3), of m] text_round_trip [OF assms(4,5)]
    symEncrypt_split [OF assms(3), of cr k m] length_base64_iv [OF assms(3)]
  by simp

theorem symDecrypt_symEncrypt_round_trip_witness:
  "aes_cbc_correct toy_crypto
   \<and> symDecrypt toy_crypto (exportSymKey (replicate 32 1))
       (symEncrypt toy_crypto (replicate 16 2) (replicate 32 1) (ascii ''hello''))
     = Inr (ascii ''hello'')"
  using symDecrypt_symEncrypt_round_trip [of toy_crypto "replicate 32 1" "replicate 16 2"
      "ascii ''hello''"] toy_aes_cbc_correct isWellFormed_hello hello_no_bom
  by simp

text \<open>
  The claim as stated fails on a plaintext that begins with U+FEFF: the decoder drops
  it, and the string of U+FEFF, \<open>h\<close>, \<open>i\<close> comes back as \<open>"hi"\<close>. The cipher plays
  no part in this: by \<open>symDecrypt_symEncrypt\<close> the result is the decoding of the
  encoded plaintext under every AES-CBC that decrypts what it encrypts; the stand-in
  only makes the terms closed.
\<close>

theorem symDecrypt_drops_leading_bom:
  "symDecrypt toy_crypto (exportSymKey (replicate 32 1))
     (symEncrypt toy_crypto (replicate 16 2) (replicate 32 1) [0xFEFF, 0x68, 0x69])
   = Inr [0x68, 0x69]
   \<and> symDecrypt toy_crypto (exportSymKey (replicate 32 1))
     (symEncrypt toy_crypto (replicate 16 2) (replicate 32 1) [0xFEFF, 0x68, 0x69])
   \<noteq> Inr [0xFEFF, 0x68, 0x69]"
proof -
  have "TextDecoder_decode (TextEncoder_encode [0xFEFF, 0x68, 0x69]) = [0x68, 0x69]"
    by (simp add: TextDecoder_TextEncoder strip_bom_def is_high_surrogate_def
        is_low_surrogate_def utf16_units_def)
  then show ?thesis
    using symDecrypt_symEncrypt [of toy_crypto "replicate 32 1" "replicate 16 2"
        "[0xFEFF, 0x68, 0x69]"] toy_aes_cbc_correct
    by simp
qed

text \<open>
  Claim C8, as amended. For every AES key \<open>k\<close> and plaintext \<open>m\<close>, two calls of
  \<open>symEncrypt(k, m)\<close> that draw distinct 16-byte IVs return distinct blobs, and
  \<open>symDecrypt\<close> with the same key returns the same string for both: the plaintext
  with every unpaired surrogate replaced by U+FFFD and one leading U+FEFF dropped,
  which is \<open>m\<close> itself when \<open>m\<close> is well formed and does not begin with U+FEFF.
\<close>

theorem symEncrypt_distinct_ivs:
  assumes "aes_cbc_correct cr"
    and "length k = 16 \<or> length k = 24 \<or> length k = 32"
    and "length iv1 = 16" and "length iv2 = 16" and "iv1 \<noteq> iv2"
  shows "symEncrypt cr iv1 k m \<noteq> symEncrypt cr iv2 k m
       \<and> symDecrypt cr (exportSymKey k) (symEncrypt cr iv1 k m) =
           Inr (TextDecoder_decode (TextEncoder_encode m))
       \<and> symDecrypt cr (exportSymKey k) (symEncrypt cr iv2 k m) =
           Inr (TextDecoder_decode (TextEncoder_encode m))
       \<and> (isWellFormed m \<and> (m = [] \<or> hd m \<noteq> 0xFEFF) \<longrightarrow>
            symDecrypt cr (exportSymKey k) (symEncrypt cr iv1 k m) = Inr m
          \<and> symDecrypt cr (exportSymKey k) (symEncrypt cr iv2 k m) = Inr m)"
proof -
  have "symEncrypt cr iv1 k m \<noteq> symEncrypt cr iv2 k m"
    using symEncrypt_iv_inject [OF assms(3,4)] assms(5) by blast
  moreover note symDecrypt_symEncrypt [OF assms(1,2,3), of m]
    symDecrypt_symEncrypt [OF assms(1,2,4), of m]
  ultimately show ?thesis using text_round_trip [of m] by simp
qed

theorem symEncrypt_distinct_ivs_witness:
  "aes_cbc_correct toy_crypto
   \<and> symEncrypt toy_crypto (replicate 16 2) (replicate 32 1) (ascii ''hello'')
     \<noteq> symEncrypt toy_crypto (replicate 16 3) (replicate 32 1) (ascii ''hello'')
   \<and> symDecrypt toy_crypto (exportSymKey (replicate 32 1))
       (symEncrypt toy_crypto (replicate 16 2) (replicate 32 1) (ascii ''hello''))
     = Inr (ascii ''hello'')
   \<and> symDecrypt toy_crypto (exportSymKey (replicate 32 1))
       (symEncrypt toy_crypto (replicate 16 3) (replicate 32 1) (ascii ''hello''))
     = Inr (ascii ''hello'')"
proof -
  have "symEncrypt toy_crypto (replicate 16 2) (replicate 32 1) (ascii ''hello'')
       \<noteq> symEncrypt toy_crypto (replicate 16 3) (replicate 32 1) (ascii ''hello'')
     \<and> symDecrypt toy_crypto (exportSymKey (replicate 32 1))
         (symEncrypt toy_crypto (replicate 16 2) (replicate 32 1) (ascii ''hello''))
       = Inr (TextDecoder_decode (TextEncoder_encode (ascii ''hello'')))
     \<and> symDecrypt toy_crypto (exportSymKey (replicate 32 1))
         (symEncrypt toy_crypto (replicate 16 3) (replicate 32 1) (ascii ''hello''))
       = Inr (TextDecoder_decode (TextEncoder_encode (ascii ''hello'')))
     \<and> (isWellFormed (ascii ''hello'')
          \<and> (ascii ''hello'' = [] \<or> hd (ascii ''hello'') \<noteq> 0xFEFF) \<longrightarrow>
         symDecrypt toy_crypto (exportSymKey (replicate 32 1))
           (symEncrypt toy_crypto (replicate 16 2) (replicate 32 1) (ascii ''hello''))
         = Inr (ascii ''hello'')
       \<and> symDecrypt toy_crypto (exportSymKey (replicate 32 1))
           (symEncrypt toy_crypto (replicate 16 3) (replicate 32 1) (ascii ''hello''))
         = Inr (ascii ''hello''))"
    by (rule symEncrypt_distinct_ivs [OF toy_aes_cbc_correct]) simp_all
  then show ?thesis
    using toy_aes_cbc_correct isWellFormed_hello hello_no_bom by blast
qed

text \<open>
  The claim as stated fails on a plaintext with an unpaired surrogate: both blobs
  decrypt to the same string, but it is U+FFFD, not the plaintext (again whatever
  the cipher).
\<close>

theorem symDecrypt_replaces_lone_surrogate:
  "symDecrypt toy_crypto (exportSymKey (replicate 32 1))
     (symEncrypt toy_crypto (replicate 16 2) (replicate 32 1) [0xD83D])
   = Inr [0xFFFD]
   \<and> symDecrypt toy_crypto (exportSymKey (replicate 32 1))
     (symEncrypt toy_crypto (replicate 16 3) (replicate 32 1) [0xD83D])
   = Inr [0xFFFD]
   \<and> (Inr [0xFFFD] :: js_error + jsstring) \<noteq> Inr [0xD83D]"
proof -
  have "TextDecoder_decode (TextEncoder_encode [0xD83D]) = [0xFFFD]"
    by (simp add: TextDecoder_TextEncoder strip_bom_def is_high_surrogate_def
        is_low_surrogate_def utf16_units_def)
  then show ?thesis
    using symDecrypt_symEncrypt [of toy_crypto "replicate 32 1" "replicate 16 2" "[0xD83D]"]
      symDecrypt_symEncrypt [of toy_crypto "replicate 32 1" "replicate 16 3" "[0xD83D]"]
      toy_aes_cbc_correct
    by simp
qed

section \<open>The onion: claims C1 and C2\<close>

text \<open>
  Claim C1, as amended. For every well-formed message \<open>M\<close> (a string with no unpaired
  surrogate), every destination user id \<open>d\<close> and every circuit of 3 nodes whose
  public keys are those of the routers' private keys, where the destination's port
  and the ports of the two inner nodes are non-negative and have at most ten digits:
  the onion that \<open>/sendMessage\<close> builds is peeled by the three routers in turn (the
  last chosen node first), each recovering the symmetric key from the first 344
  characters, decrypting the rest and stripping the 10-digit address, and what the
  third router forwards is exactly \<open>M\<close>: its \<open>fetch\<close> goes to the port
  \<open>BASE_USER_PORT + d\<close> with \<open>M\<close> as the message, and the destination's \<open>/message\<close>
  handler stores \<open>M\<close> as its last received message.
\<close>

theorem onion_round_trip:
  assumes "aes_cbc_correct cr"
    and "rsa_key_pair cr spki0 pkcs80" and "rsa_key_pair cr spki1 pkcs81"
    and "rsa_key_pair cr spki2 pkcs82"
    and "\<forall>i<3. length (fresh_symKey (rnd i)) = 32 \<and> length (fresh_iv (rnd i)) = 16"
    and "0 \<le> BASE_USER_PORT + d" and "BASE_USER_PORT + d < 10 ^ 10"
    and "0 \<le> BASE_ONION_ROUTER_PORT + id0" and "BASE_ONION_ROUTER_PORT + id0 < 10 ^ 10"
    and "0 \<le> BASE_ONION_ROUTER_PORT + id1" and "BASE_ONION_ROUTER_PORT + id1 < 10 ^ 10"
    and "isWellFormed M"
  shows "\<exists>L1 L0.
           map_sum id (map lastReceivedDecryptedMessage)
             (onion_route cr BASE_USER_PORT BASE_ONION_ROUTER_PORT rnd
                [(\<lparr>nodeId = id0, pubKey = exportPubKey spki0\<rparr>, exportPrvKey (Some pkcs80), f0, s0),
                 (\<lparr>nodeId = id1, pubKey = exportPubKey spki1\<rparr>, exportPrvKey (Some pkcs81), f1, s1),
                 (\<lparr>nodeId = id2, pubKey = exportPubKey spki2\<rparr>, exportPrvKey (Some pkcs82), f2, s2)]
                M d)
           = Inr [Some L1, Some L0, Some M]
         \<and> snd (router_message cr id0 (exportPrvKey (Some pkcs80)) f0 s0 (Some L0)) =
             post_then_respond (Some (Num (BASE_USER_PORT + d))) (Some M) f0
         \<and> getLastReceivedMessage d (fst (user_message d u (Some M))) = Some M"
proof -
  obtain L2 L1 L0 where
    "onion_route cr BASE_USER_PORT BASE_ONION_ROUTER_PORT rnd
       [(\<lparr>nodeId = id0, pubKey = exportPubKey spki0\<rparr>, exportPrvKey (Some pkcs80), f0, s0),
        (\<lparr>nodeId = id1, pubKey = exportPubKey spki1\<rparr>, exportPrvKey (Some pkcs81), f1, s1),
        (\<lparr>nodeId = id2, pubKey = exportPubKey spki2\<rparr>, exportPrvKey (Some pkcs82), f2, s2)]
       M d =
     Inr [\<lparr>lastReceivedEncryptedMessage = Some L2, lastReceivedDecryptedMessage = Some L1,
           lastMessageSource = Some id2,
           lastMessageDestination = Some (Num (BASE_ONION_ROUTER_PORT + id1))\<rparr>,
          \<lparr>lastReceivedEncryptedMessage = Some L1, lastReceivedDecryptedMessage = Some L0,
           lastMessageSource = Some id1,
           lastMessageDestination = Some (Num (BASE_ONION_ROUTER_PORT + id0))\<rparr>,
          \<lparr>lastReceivedEncryptedMessage = Some L0,
           lastReceivedDecryptedMessage = Some (toWellFormed M),
           lastMessageSource = Some id0,
           lastMessageDestination = Some (Num (BASE_USER_PORT + d))\<rparr>]"
    and "snd (router_message cr id0 (exportPrvKey (Some pkcs80)) f0 s0 (Some L0)) =
           post_then_respond (Some (Num (BASE_USER_PORT + d))) (Some (toWellFormed M)) f0"
    using three_hops [OF assms(1-11)] by blast
  then have "map_sum id (map lastReceivedDecryptedMessage)
             (onion_route cr BASE_USER_PORT BASE_ONION_ROUTER_PORT rnd
                [(\<lparr>nodeId = id0, pubKey = exportPubKey spki0\<rparr>, exportPrvKey (Some pkcs80), f0, s0),
                 (\<lparr>nodeId = id1, pubKey = exportPubKey spki1\<rparr>, exportPrvKey (Some pkcs81), f1, s1),
                 (\<lparr>nodeId = id2, pubKey = exportPubKey spki2\<rparr>, exportPrvKey (Some pkcs82), f2, s2)]
                M d)
           = Inr [Some L1, Some L0, Some M]
         \<and> snd (router_message cr id0 (exportPrvKey (Some pkcs80)) f0 s0 (Some L0)) =
             post_then_respond (Some (Num (BASE_USER_PORT + d))) (Some M) f0"
    using toWellFormed_id [OF assms(12)] by simp
  moreover have "getLastReceivedMessage d (fst (user_message d u (Some M))) = Some M"
    by (simp add: getLastReceivedMessage_def user_message_def)
  ultimately show ?thesis by blast
qed

theorem onion_round_trip_witness:
  "aes_cbc_correct toy_crypto \<and> rsa_key_pair toy_crypto [1] [1] \<and> rsa_key_pair toy_crypto [2] [2]
   \<and> rsa_key_pair toy_crypto [3] [3] \<and> isWellFormed (ascii ''hello'')
   \<and> map_sum id (map lastReceivedDecryptedMessage \<circ> drop 2)
       (onion_route toy_crypto 3000 4000 example_rnd example_circuit (ascii ''hello'') 7)
     = Inr [Some (ascii ''hello'')]"
proof -
  have "\<exists>L1 L0.
      map_sum id (map lastReceivedDecryptedMessage)
        (onion_route toy_crypto 3000 4000 example_rnd example_circuit (ascii ''hello'') 7)
      = Inr [Some L1, Some L0, Some (ascii ''hello'')]
      \<and> snd (router_message toy_crypto 0 (exportPrvKey (Some [1])) Resolved router_init (Some L0)) =
          post_then_respond (Some (Num (3000 + 7))) (Some (ascii ''hello'')) Resolved
      \<and> getLastReceivedMessage 7 (fst (user_message 7 user_init (Some (ascii ''hello'')))) =
          Some (ascii ''hello'')"
    unfolding example_circuit_eq
    by (rule onion_round_trip [OF toy_aes_cbc_correct toy_rsa_key_pair toy_rsa_key_pair
          toy_rsa_key_pair example_rnd_lengths _ _ _ _ _ _ isWellFormed_hello]) simp_all
  then obtain L1 L0 where
    "map_sum id (map lastReceivedDecryptedMessage)
        (onion_route toy_crypto 3000 4000 example_rnd example_circuit (ascii ''hello'') 7)
      = Inr [Some L1, Some L0, Some (ascii ''hello'')]"
    by blast
  then have "map_sum id (map lastReceivedDecryptedMessage \<circ> drop 2)
       (onion_route toy_crypto 3000 4000 example_rnd example_circuit (ascii ''hello'') 7)
     = Inr [Some (ascii ''hello'')]"
    by (cases "onion_route toy_crypto 3000 4000 example_rnd example_circuit (ascii ''hello'') 7")
      (auto simp: drop_map [symmetric] simp del: drop_map)
  then show ?thesis
    using toy_aes_cbc_correct toy_rsa_key_pair isWellFormed_hello by simp
qed

text \<open>
  The claim as stated fails on a message with an unpaired surrogate: the innermost
  layer is encoded as UTF-8, which has no encoding of a lone surrogate, and the
  destination receives U+FFFD in its place (by \<open>three_hops\<close>, under any primitives
  that meet the assumptions).
\<close>

theorem onion_replaces_lone_surrogate:
  "map_sum id (map lastReceivedDecryptedMessage \<circ> drop 2)
     (onion_route toy_crypto 3000 4000 example_rnd example_circuit [0xD83D] 7)
   = Inr [Some [0xFFFD]]
   \<and> [0xFFFD] \<noteq> [0xD83D :: 16 word]"
proof -
  have twf: "toWellFormed [0xD83D] = [0xFFFD]"
    by (simp add: toWellFormed_def is_high_surrogate_def is_low_surrogate_def utf16_units_def)
  obtain L2 L1 L0 where
    "onion_route toy_crypto 3000 4000 example_rnd example_circuit [0xD83D] 7 =
     Inr [\<lparr>lastReceivedEncryptedMessage = Some L2, lastReceivedDecryptedMessage = Some L1,
           lastMessageSource = Some 2, lastMessageDestination = Some (Num (4000 + 1))\<rparr>,
          \<lparr>lastReceivedEncryptedMessage = Some L1, lastReceivedDecryptedMessage = Some L0,
           lastMessageSource = Some 1, lastMessageDestination = Some (Num (4000 + 0))\<rparr>,
          \<lparr>lastReceivedEncryptedMessage = Some L0,
           lastReceivedDecryptedMessage = Some (toWellFormed [0xD83D]),
           lastMessageSource = Some 0, lastMessageDestination = Some (Num (3000 + 7))\<rparr>]"
    unfolding example_circuit_eq
    using three_hops [OF toy_aes_cbc_correct toy_rsa_key_pair toy_rsa_key_pair
        toy_rsa_key_pair example_rnd_lengths, of "[1]" "[2]" "[3]" 3000 7 4000 0 1
        Resolved router_init Resolved router_init 2 Resolved router_init "[0xD83D]"]
    by auto
  then show ?thesis by (simp add: twf)
qed

text \<open>
  Claim C2, as amended. For the onion that \<open>/sendMessage\<close> builds for a circuit of
  three nodes (whatever the message), where the destination's port
  \<open>BASE_USER_PORT + destinationUserId\<close> and the ports
  \<open>BASE_ONION_ROUTER_PORT + nodeId\<close> of the two inner nodes are non-negative and have
  at most ten digits: when the routers of those nodes peel it in traversal order,
  the address the first hop recovers is the routing address of the second, the
  address the second recovers is that of the third, and the address the third
  recovers is \<open>BASE_USER_PORT + destinationUserId\<close>.
\<close>

theorem address_fidelity:
  assumes "aes_cbc_correct cr"
    and "rsa_key_pair cr spki0 pkcs80" and "rsa_key_pair cr spki1 pkcs81"
    and "rsa_key_pair cr spki2 pkcs82"
    and "\<forall>i<3. length (fresh_symKey (rnd i)) = 32 \<and> length (fresh_iv (rnd i)) = 16"
    and "0 \<le> BASE_USER_PORT + d" and "BASE_USER_PORT + d < 10 ^ 10"
    and "0 \<le> BASE_ONION_ROUTER_PORT + id0" and "BASE_ONION_ROUTER_PORT + id0 < 10 ^ 10"
    and "0 \<le> BASE_ONION_ROUTER_PORT + id1" and "BASE_ONION_ROUTER_PORT + id1 < 10 ^ 10"
  shows "map_sum id (map (\<lambda>st. (lastMessageSource st, lastMessageDestination st)))
           (onion_route cr BASE_USER_PORT BASE_ONION_ROUTER_PORT rnd
              [(\<lparr>nodeId = id0, pubKey = exportPubKey spki0\<rparr>, exportPrvKey (Some pkcs80), f0, s0),
               (\<lparr>nodeId = id1, pubKey = exportPubKey spki1\<rparr>, exportPrvKey (Some pkcs81), f1, s1),
               (\<lparr>nodeId = id2, pubKey = exportPubKey spki2\<rparr>, exportPrvKey (Some pkcs82), f2, s2)]
              M d)
         = Inr [(Some id2, Some (Num (BASE_ONION_ROUTER_PORT + id1))),
                (Some id1, Some (Num (BASE_ONION_ROUTER_PORT + id0))),
                (Some id0, Some (Num (BASE_USER_PORT + d)))]"
proof -
  obtain L2 L1 L0 where
    "onion_route cr BASE_USER_PORT BASE_ONION_ROUTER_PORT rnd
       [(\<lparr>nodeId = id0, pubKey = exportPubKey spki0\<rparr>, exportPrvKey (Some pkcs80), f0, s0),
        (\<lparr>nodeId = id1, pubKey = exportPubKey spki1\<rparr>, exportPrvKey (Some pkcs81), f1, s1),
        (\<lparr>nodeId = id2, pubKey = exportPubKey spki2\<rparr>, exportPrvKey (Some pkcs82), f2, s2)]
       M d =
     Inr [\<lparr>lastReceivedEncryptedMessage = Some L2, lastReceivedDecryptedMessage = Some L1,
           lastMessageSource = Some id2,
           lastMessageDestination = Some (Num (BASE_ONION_ROUTER_PORT + id1))\<rparr>,
          \<lparr>lastReceivedEncryptedMessage = Some L1, lastReceivedDecryptedMessage = Some L0,
           lastMessageSource = Some id1,
           lastMessageDestination = Some (Num (BASE_ONION_ROUTER_PORT + id0))\<rparr>,
          \<lparr>lastReceivedEncryptedMessage = Some L0,
           lastReceivedDecryptedMessage = Some (toWellFormed M),
           lastMessageSource = Some id0,
           lastMessageDestination = Some (Num (BASE_USER_PORT + d))\<rparr>]"
    using three_hops [OF assms] by blast
  then show ?thesis by simp
qed

theorem address_fidelity_witness:
  "aes_cbc_correct toy_crypto \<and> rsa_key_pair toy_crypto [1] [1] \<and> rsa_key_pair toy_crypto [2] [2]
   \<and> rsa_key_pair toy_crypto [3] [3]
   \<and> map_sum id (map (\<lambda>st. (lastMessageSource st, lastMessageDestination st)))
       (onion_route toy_crypto 3000 4000 example_rnd example_circuit [0xD83D] 7)
     = Inr [(Some 2, Some (Num 4001)), (Some 1, Some (Num 4000)), (Some 0, Some (Num 3007))]"
proof -
  have "map_sum id (map (\<lambda>st. (lastMessageSource st, lastMessageDestination st)))
       (onion_route toy_crypto 3000 4000 example_rnd example_circuit [0xD83D] 7)
     = Inr [(Some 2, Some (Num (4000 + 1))), (Some 1, Some (Num (4000 + 0))),
            (Some 0, Some (Num (3000 + 7)))]"
    unfolding example_circuit_eq
    by (rule address_fidelity [OF toy_aes_cbc_correct toy_rsa_key_pair toy_rsa_key_pair
          toy_rsa_key_pair example_rnd_lengths]) simp_all
  then show ?thesis using toy_aes_cbc_correct toy_rsa_key_pair by simp
qed

text \<open>
  The claim as stated fails on a port that is not a number of at most ten digits.
  \<open>/sendMessage\<close> takes \<open>destinationUserId\<close> from the request body as it comes; with
  \<open>BASE_USER_PORT = 3000\<close> and \<open>destinationUserId = -3005\<close> the address written into
  the innermost layer is \<open>"00000000-5"\<close>, of which \<open>parseInt\<close> reads the leading
  zeros: the last hop recovers 0, not \<open>-5\<close> (by \<open>three_hops_to\<close>, under any primitives
  that meet the assumptions).
\<close>

theorem negative_port_parses_as_zero:
  "address (3000 + (- 3005)) = ascii ''00000000-5''
   \<and> map_sum id (map (\<lambda>st. (lastMessageSource st, lastMessageDestination st)))
       (onion_route toy_crypto 3000 4000 example_rnd example_circuit (ascii ''hello'') (- 3005))
     = Inr [(Some 2, Some (Num 4001)), (Some 1, Some (Num 4000)), (Some 0, Some (Num 0))]
   \<and> Num 0 \<noteq> Num (3000 + (- 3005))"
proof -
  have a: "address (- 5) = [48, 48, 48, 48, 48, 48, 48, 48, 45, 53]"
    by (simp add: address_def number_toString_def padStart_def decimal_small eval_nat_numeral)
  have p: "parseInt [48, 48, 48, 48, 48, 48, 48, 48, 45, 53] = Num 0"
    by (simp add: parseInt_def isStrWhiteSpaceChar_def isDigit_def digits_value_def)
  obtain L2 L1 L0 where
    "onion_route toy_crypto 3000 4000 example_rnd example_circuit (ascii ''hello'') (- 3005) =
     Inr [\<lparr>lastReceivedEncryptedMessage = Some L2, lastReceivedDecryptedMessage = Some L1,
           lastMessageSource = Some 2, lastMessageDestination = Some (Num (4000 + 1))\<rparr>,
          \<lparr>lastReceivedEncryptedMessage = Some L1, lastReceivedDecryptedMessage = Some L0,
           lastMessageSource = Some 1, lastMessageDestination = Some (Num (4000 + 0))\<rparr>,
          record_message 0 L0
            (Some (address (3000 + (- 3005)) @ toWellFormed (ascii ''hello'')))]"
    unfolding example_circuit_eq
    using three_hops_to [where BUP = 3000 and d = "- 3005" and BOR = 4000 and M = "ascii ''hello''"
        and ?id0.0 = 0 and ?id1.0 = 1 and ?id2.0 = 2 and ?f0.0 = Resolved and ?f1.0 = Resolved
        and ?f2.0 = Resolved and ?s0.0 = router_init and ?s1.0 = router_init
        and ?s2.0 = router_init and ?spki0.0 = "[1]" and ?spki1.0 = "[2]" and ?spki2.0 = "[3]",
        OF toy_aes_cbc_correct toy_rsa_key_pair toy_rsa_key_pair toy_rsa_key_pair
        example_rnd_lengths]
    by auto
  then have "map_sum id (map (\<lambda>st. (lastMessageSource st, lastMessageDestination st)))
       (onion_route toy_crypto 3000 4000 example_rnd example_circuit (ascii ''hello'') (- 3005))
     = Inr [(Some 2, Some (Num 4001)), (Some 1, Some (Num 4000)), (Some 0, Some (Num 0))]"
    by (simp add: record_message_def a p)
  moreover have "address (3000 + (- 3005)) = ascii ''00000000-5''"
    by (simp add: a ascii_def)
  ultimately show ?thesis by simp
qed

section \<open>The router's handler: claims C7, C9 and C10\<close>







text \<open>
  Claim C10. If the RSA decryption of the first 344 characters fails, or it succeeds
  and the symmetric decryption of the rest fails, the handler ends with that
  exception: the four introspection fields keep their previous values, no forward is
  issued and no response is sent.
\<close>

theorem decryption_failure_changes_nothing:
  assumes "privateKey \<noteq> []"
    and "importPrvKey cr privateKey = Inr key"
    and "rsaDecrypt cr (take 344 layer) key = Inl e
         \<or> (\<exists>symKey. rsaDecrypt cr (take 344 layer) key = Inr symKey \<and> symKey \<noteq> []
                    \<and> symDecrypt cr symKey (drop 344 layer) = Inl e)"
  shows "router_message cr routerId (Some privateKey) downstream st (Some layer) =
           (st, [], Some e)"
  using assms by (auto simp: router_message_def)

theorem decryption_failure_changes_nothing_witness:
  "rsaDecrypt toy_crypto (take 344 (ascii ''hello'')) [1] = Inl OperationError
   \<and> router_message toy_crypto 0 (example_key 0) Resolved router_init (Some (ascii ''hello'')) =
       (router_init, [], Some OperationError)"
proof -
  have f: "rsaDecrypt toy_crypto (take 344 (ascii ''hello'')) [1] = Inl OperationError"
    by (simp add: rsaDecrypt_def toy_crypto_def ascii_def base64ToArrayBuffer_def unbase64_def)
  have k: "example_key 0 = Some (arrayBufferToBase64 [1])"
    by (simp add: example_key_def)
  have i: "importPrvKey toy_crypto (arrayBufferToBase64 [1]) = Inr [1]"
    by (simp add: importPrvKey_def base64_round_trip toy_crypto_def del: arrayBufferToBase64.simps)
  have n: "arrayBufferToBase64 [1 :: byte] \<noteq> []" by (rule base64_nonempty) simp
  show ?thesis
    unfolding k
    using decryption_failure_changes_nothing [OF n i, of "ascii ''hello''" OperationError 0
        Resolved router_init] f
    by simp
qed

section \<open>The circuit: claims C3 and C4\<close>

text \<open>
  Claim C3. For every directory of at least 3 nodes, when the circuit-selection loop
  terminates, the circuit has exactly 3 elements, each an element of the directory
  (the object at some index of the array), and no element occurs twice.
  \<open>Math.random()\<close> returns a number in \<open>[0, 1)\<close>.
\<close>

theorem circuit_is_three_distinct_nodes:
  assumes "3 \<le> length ns"
    and "\<forall>i. 0 \<le> random i \<and> random i < 1"
    and "circuit_loop ns random 0 [] = Some (circuit, k)"
  shows "length circuit = 3 \<and> distinct circuit
       \<and> (\<forall>x \<in> set circuit. \<exists>i<length ns. x = Ref i \<and> deref ns x = Some (ns ! i))"
proof -
  have "length (fst (circuit, k)) = 3 \<and> distinct (fst (circuit, k))
       \<and> (\<forall>x \<in> set (fst (circuit, k)).
            if ns = [] then x = Undefined else \<exists>i<length ns. x = Ref i)"
    by (rule circuit_loop_invariant [OF assms(3,2)]) simp_all
  moreover have "ns \<noteq> []" using assms(1) by auto
  ultimately show ?thesis by auto
qed

theorem circuit_is_three_distinct_nodes_witness:
  "3 \<le> length example_nodes
   \<and> (\<forall>i. 0 \<le> example_random i \<and> example_random i < 1)
   \<and> circuit_loop example_nodes example_random 0 [] = Some ([Ref 0, Ref 1, Ref 2], 4)
   \<and> length [Ref 0, Ref 1, Ref 2] = 3 \<and> distinct [Ref 0, Ref 1, Ref 2]"
proof -
  have len: "3 \<le> length example_nodes" by (simp add: example_nodes_def)
  have run: "circuit_loop example_nodes example_random 0 [] = Some ([Ref 0, Ref 1, Ref 2], 4)"
    by (simp add: circuit_loop.simps randomIndex_def nodes_at_def example_random_def
        example_nodes_def)
  from circuit_is_three_distinct_nodes [OF len example_random_range run] len
    example_random_range run
  show ?thesis by simp
qed

text \<open>
  Claim C4. With \<open>Math.random()\<close> in \<open>[0, 1)\<close>: when the directory holds at least 3
  nodes and the sequence of random indices contains three different indices, the
  loop terminates; when the directory holds fewer than 3 nodes the loop never
  terminates, and \<open>/sendMessage\<close> as a whole never returns: it reports no error and
  sends no response.
\<close>

theorem circuit_loop_termination:
  assumes "\<forall>i. 0 \<le> random i \<and> random i < 1"
  shows "(3 \<le> length ns
          \<and> (\<exists>a b c. randomIndex ns random a \<noteq> randomIndex ns random b
                    \<and> randomIndex ns random a \<noteq> randomIndex ns random c
                    \<and> randomIndex ns random b \<noteq> randomIndex ns random c)
          \<longrightarrow> (\<exists>r. circuit_loop ns random 0 [] = Some r))
       \<and> (length ns < 3
          \<longrightarrow> circuit_loop ns random 0 [] = None
            \<and> user_sendMessage cr BASE_USER_PORT BASE_ONION_ROUTER_PORT random rnd downstream ns
                st message destinationUserId = None)"
  using circuit_loop_terminates [OF assms] circuit_loop_diverges [OF assms]
  by (auto simp: user_sendMessage_def)

theorem circuit_loop_termination_witness:
  "(\<forall>i. 0 \<le> example_random i \<and> example_random i < 1)
   \<and> 3 \<le> length example_nodes
   \<and> randomIndex example_nodes example_random 0 \<noteq> randomIndex example_nodes example_random 2
   \<and> randomIndex example_nodes example_random 0 \<noteq> randomIndex example_nodes example_random 3
   \<and> randomIndex example_nodes example_random 2 \<noteq> randomIndex example_nodes example_random 3
   \<and> (\<exists>r. circuit_loop example_nodes example_random 0 [] = Some r)
   \<and> length (take 2 example_nodes) < 3
   \<and> circuit_loop (take 2 example_nodes) example_random 0 [] = None
   \<and> user_sendMessage toy_crypto 3000 4000 example_random example_rnd Resolved
       (take 2 example_nodes) user_init (ascii ''hello'') 7 = None"
proof -
  have len: "3 \<le> length example_nodes" "length (take 2 example_nodes) < 3"
    by (simp_all add: example_nodes_def)
  have hits: "randomIndex example_nodes example_random 0 \<noteq> randomIndex example_nodes example_random 2"
    "randomIndex example_nodes example_random 0 \<noteq> randomIndex example_nodes example_random 3"
    "randomIndex example_nodes example_random 2 \<noteq> randomIndex example_nodes example_random 3"
    by (simp_all add: example_randomIndex)
  note t1 = circuit_loop_termination [OF example_random_range, of example_nodes toy_crypto
      3000 4000 example_rnd Resolved user_init "ascii ''hello''" 7]
  note t2 = circuit_loop_termination [OF example_random_range, of "take 2 example_nodes"
      toy_crypto 3000 4000 example_rnd Resolved user_init "ascii ''hello''" 7]
  from t1 len(1) hits have "\<exists>r. circuit_loop example_nodes example_random 0 [] = Some r"
    by blast
  moreover from t2 len(2) have "circuit_loop (take 2 example_nodes) example_random 0 [] = None
      \<and> user_sendMessage toy_crypto 3000 4000 example_random example_rnd Resolved
           (take 2 example_nodes) user_init (ascii ''hello'') 7 = None"
    by blast
  ultimately show ?thesis using len hits example_random_range by blast
qed

end
